theory Spec2Isabelle
  imports Main
begin

section \<open>The program graph\<close>

text \<open>
  Both passes work on LLVM's in-memory program graph. An instruction is an object
  with an identity (its address, here a number); a basic block holds an ordered list
  of instructions whose last one is the terminator; every value keeps the list of the
  instructions that use it. The attributes the passes only read through LLVM's
  interface (\<open>isa<PHINode>\<close>, \<open>mayReadOrWriteMemory\<close>,
  \<open>isSafeToSpeculativelyExecute\<close>, \<open>isTerminator\<close>, \<open>getType\<close>) are
  fields of the instruction.
\<close>

type_synonym instr_id = nat
type_synonym block_id = nat
type_synonym loop_id = nat

datatype ty = IntegerTy nat | OtherTy

text \<open>
  A value is an instruction, a constant integer of a width, or anything else with its
  type (an argument, a global, a block label, a constant that is not an integer).
\<close>

datatype val = Inst instr_id | ConstantInt nat int | OtherVal ty nat

datatype opcode = PHI | Add | Mul | OtherOp

record instr =
  opcode :: opcode
  getType :: ty
  operands :: "val list"
  mayReadOrWriteMemory :: bool
  isSafeToSpeculativelyExecute :: bool
  isTerminator :: bool

record func =
  body :: "block_id \<Rightarrow> instr_id list"
  inst :: "instr_id \<Rightarrow> instr"
  users :: "instr_id \<Rightarrow> instr_id list"
  fresh :: instr_id

text \<open>
  A loop as the loop analysis hands it out: its identity, header, blocks, preheader
  (absent when the loop has none), exit blocks and immediate sub-loops.
\<close>

datatype loop = Loop
  (loopId: loop_id)
  (getHeader: "block_id option")
  (getBlocks: "block_id list")
  (getLoopPreheader: "block_id option")
  (getExitBlocks: "block_id list")
  (getSubLoops: "loop list")

datatype preserved = PreservedAll | PreservedNone

datatype error = NullDereference

definition isPHI :: "func \<Rightarrow> instr_id \<Rightarrow> bool" where
  "isPHI g i = (opcode (inst g i) = PHI)"

text \<open>\<open>L.contains(I)\<close>: the block that holds the instruction is a block of the loop.\<close>

definition loopInstrs :: "loop \<Rightarrow> func \<Rightarrow> instr_id list" where
  "loopInstrs L g = concat (map (body g) (getBlocks L))"

definition contains :: "loop \<Rightarrow> func \<Rightarrow> instr_id \<Rightarrow> bool" where
  "contains L g i = (i \<in> set (loopInstrs L g))"

text \<open>\<open>I->getParent()\<close> for an instruction of the loop.\<close>

definition getParent :: "loop \<Rightarrow> func \<Rightarrow> instr_id \<Rightarrow> block_id option" where
  "getParent L g i = find (\<lambda>b. i \<in> set (body g b)) (getBlocks L)"

text \<open>\<open>BB->getTerminator()\<close>: the last instruction if it is a terminator, else null.\<close>

definition getTerminator :: "func \<Rightarrow> block_id \<Rightarrow> instr_id option" where
  "getTerminator g b =
     (if body g b = [] \<or> \<not> isTerminator (inst g (last (body g b))) then None
      else Some (last (body g b)))"

text \<open>
  \<open>I->moveBefore(T)\<close> with \<open>T\<close> in block \<open>b\<close>: the instruction is unlinked from the
  list that holds it and linked in front of \<open>T\<close>. Operands and use lists do not change.
\<close>

fun insertBefore :: "instr_id \<Rightarrow> instr_id \<Rightarrow> instr_id list \<Rightarrow> instr_id list" where
  "insertBefore t i [] = []"
| "insertBefore t i (x # xs) = (if x = t then i # x # xs else x # insertBefore t i xs)"

definition moveBefore :: "func \<Rightarrow> instr_id \<Rightarrow> block_id \<Rightarrow> instr_id \<Rightarrow> func" where
  "moveBefore g i b t =
     (let unlinked = (\<lambda>c. filter (\<lambda>x. x \<noteq> i) (body g c))
      in g\<lparr>body := unlinked(b := insertBefore t i (unlinked b))\<rparr>)"

section \<open>SimpleLICM\<close>

text \<open>
  The \<open>SmallPtrSet\<close> is a list without repetition, in insertion order;
  \<open>SmallVector\<close> is a list, \<open>push_back\<close> appends and \<open>pop_back_val\<close> takes the last.
\<close>

definition set_insert :: "instr_id \<Rightarrow> instr_id list \<Rightarrow> instr_id list" where
  "set_insert i s = (if i \<in> set s then s else s @ [i])"

text \<open>Lines 48-57: no operand is an instruction of the loop.\<close>

definition allOperandsInvariant :: "loop \<Rightarrow> func \<Rightarrow> instr_id \<Rightarrow> bool" where
  "allOperandsInvariant L g i =
     list_all (\<lambda>v. case v of Inst j \<Rightarrow> \<not> contains L g j | _ \<Rightarrow> True) (operands (inst g i))"

text \<open>Lines 43-63: the scan that seeds the invariant set and the worklist.\<close>

definition seedStep ::
  "loop \<Rightarrow> func \<Rightarrow> instr_id list \<times> instr_id list \<Rightarrow> instr_id \<Rightarrow> instr_id list \<times> instr_id list" where
  "seedStep L g sw i =
     (if isPHI g i \<or> mayReadOrWriteMemory (inst g i) then sw
      else if allOperandsInvariant L g i then (set_insert i (fst sw), snd sw @ [i])
      else sw)"

definition seed :: "loop \<Rightarrow> func \<Rightarrow> instr_id list \<times> instr_id list" where
  "seed L g = foldl (seedStep L g) ([], []) (loopInstrs L g)"

text \<open>Lines 79-86: every operand that is an instruction of the loop is in the set.\<close>

definition allOperandsSafe :: "loop \<Rightarrow> func \<Rightarrow> instr_id list \<Rightarrow> instr_id \<Rightarrow> bool" where
  "allOperandsSafe L g s u =
     list_all (\<lambda>v. case v of Inst j \<Rightarrow> \<not> (contains L g j \<and> j \<notin> set s) | _ \<Rightarrow> True)
       (operands (inst g u))"

text \<open>Lines 69-92: one user of the popped instruction.\<close>

definition userStep ::
  "loop \<Rightarrow> func \<Rightarrow> instr_id list \<times> instr_id list \<Rightarrow> instr_id \<Rightarrow> instr_id list \<times> instr_id list" where
  "userStep L g sw u =
     (if \<not> contains L g u \<or> u \<in> set (fst sw) \<or> isPHI g u \<or> mayReadOrWriteMemory (inst g u)
      then sw
      else if allOperandsSafe L g (fst sw) u then (set_insert u (fst sw), snd sw @ [u])
      else sw)"

text \<open>Lines 66-93: the worklist loop. It returns the invariant set.\<close>

function (sequential) closure :: "loop \<Rightarrow> func \<Rightarrow> instr_id list \<Rightarrow> instr_id list \<Rightarrow> instr_id list" where
  "closure L g s [] = s"
| "closure L g s w =
     (let sw = foldl (userStep L g) (s, butlast w) (users g (last w))
      in closure L g (fst sw) (snd sw))"
  by pat_completeness auto

lemma userStep_cases:
  "userStep L g sw u = sw \<or>
   (u \<in> set (loopInstrs L g) \<and> u \<notin> set (fst sw) \<and>
    userStep L g sw u = (fst sw @ [u], snd sw @ [u]))"
  by (simp add: userStep_def set_insert_def contains_def)

lemma card_diff_insert_less:
  assumes "u \<in> set xs" "u \<notin> set s"
  shows "card (set xs - set (s @ [u])) < card (set xs - set s)"
proof -
  have "set xs - set (s @ [u]) \<subset> set xs - set s"
    using assms by auto
  then show ?thesis
    by (simp add: psubset_card_mono)
qed

lemma foldl_userStep_measure:
  "foldl (userStep L g) sw us = sw \<or>
   card (set (loopInstrs L g) - set (fst (foldl (userStep L g) sw us)))
     < card (set (loopInstrs L g) - set (fst sw))"
proof (induction us arbitrary: sw)
  case Nil
  show ?case by simp
next
  case (Cons u us)
  from userStep_cases [of L g sw u] show ?case
  proof
    assume "userStep L g sw u = sw"
    with Cons.IH [of sw] show ?thesis by simp
  next
    assume step: "u \<in> set (loopInstrs L g) \<and> u \<notin> set (fst sw) \<and>
      userStep L g sw u = (fst sw @ [u], snd sw @ [u])"
    then have less: "card (set (loopInstrs L g) - set (fst (userStep L g sw u)))
        < card (set (loopInstrs L g) - set (fst sw))"
      using card_diff_insert_less [of u "loopInstrs L g" "fst sw"] by simp
    from Cons.IH [of "userStep L g sw u"] less show ?thesis
      by auto
  qed
qed

termination closure
proof (relation "measures [\<lambda>(L, g, s, w). card (set (loopInstrs L g) - set s),
                           \<lambda>(L, g, s, w). length w]")
  show "wf (measures [\<lambda>(L, g, s, w). card (set (loopInstrs L g) - set s),
                           \<lambda>(L, g, s, w). length w])"
    by simp
next
  fix L g s v va sw
  assume sw: "sw = foldl (userStep L g) (s, butlast (v # va)) (users g (last (v # va)))"
  let ?c = "\<lambda>t. card (set (loopInstrs L g) - set t)"
  from foldl_userStep_measure [of L g "(s, butlast (v # va))" "users g (last (v # va))"]
  have "sw = (s, butlast (v # va)) \<or> ?c (fst sw) < ?c s"
    unfolding sw by simp
  then have "?c (fst sw) < ?c s \<or> (?c (fst sw) = ?c s \<and> length (snd sw) < length (v # va))"
  proof
    assume "sw = (s, butlast (v # va))"
    then have "fst sw = s" "snd sw = butlast (v # va)" by simp_all
    then show ?thesis by simp
  next
    assume "?c (fst sw) < ?c s"
    then show ?thesis by simp
  qed
  then show "((L, g, fst sw, snd sw), (L, g, s, v # va))
          \<in> measures [\<lambda>(L, g, s, w). card (set (loopInstrs L g) - set s),
                       \<lambda>(L, g, s, w). length w]"
    by (auto simp: case_prod_beta)
qed

text \<open>
  \<open>DT.dominates(I, EB)\<close> for an instruction and a block, both reachable from the
  entry: the block that holds the instruction at the moment of the call is not \<open>EB\<close>
  and dominates it in the dominator tree \<open>dt\<close>, which the host hands to the pass and
  which the pass never updates.
\<close>

definition dominates ::
  "(block_id \<Rightarrow> block_id \<Rightarrow> bool) \<Rightarrow> loop \<Rightarrow> func \<Rightarrow> instr_id \<Rightarrow> block_id \<Rightarrow> bool" where
  "dominates dt L g i eb =
     (case getParent L g i of None \<Rightarrow> False | Some b \<Rightarrow> b \<noteq> eb \<and> dt b eb)"

text \<open>Lines 111-118.\<close>

definition dominatesAllLoopExits ::
  "(block_id \<Rightarrow> block_id \<Rightarrow> bool) \<Rightarrow> func \<Rightarrow> instr_id \<Rightarrow> loop \<Rightarrow> bool" where
  "dominatesAllLoopExits dt g i L = list_all (dominates dt L g i) (getExitBlocks L)"

text \<open>
  Lines 101-106: the hoisting loop over the invariant set, in the order the set's
  iterator yields. Moving before a null terminator dereferences a null pointer.
\<close>

fun hoist ::
  "(block_id \<Rightarrow> block_id \<Rightarrow> bool) \<Rightarrow> loop \<Rightarrow> block_id \<Rightarrow> func \<Rightarrow> instr_id list
     \<Rightarrow> error + func" where
  "hoist dt L ph g [] = Inr g"
| "hoist dt L ph g (i # rest) =
     (if isSafeToSpeculativelyExecute (inst g i) \<and> dominatesAllLoopExits dt g i L
      then (case getTerminator g ph of
              None \<Rightarrow> Inl NullDereference
            | Some t \<Rightarrow> hoist dt L ph (moveBefore g i ph t) rest)
      else hoist dt L ph g rest)"

text \<open>Lines 39-93: the invariant set when the worklist is empty.\<close>

definition InvariantSet :: "loop \<Rightarrow> func \<Rightarrow> instr_id list" where
  "InvariantSet L g = closure L g (fst (seed L g)) (snd (seed L g))"

text \<open>
  Lines 29-109. \<open>iter\<close> is the order in which the pointer set's iterator yields its
  elements: insertion order while the set is small, an order fixed by the addresses
  once it has grown into a hash table.
\<close>

definition SimpleLICM_run ::
  "(instr_id list \<Rightarrow> instr_id list) \<Rightarrow> (block_id \<Rightarrow> block_id \<Rightarrow> bool) \<Rightarrow> loop \<Rightarrow> func
     \<Rightarrow> error + (func \<times> preserved)" where
  "SimpleLICM_run iter dt L g =
     (case getLoopPreheader L of
        None \<Rightarrow> Inr (g, PreservedAll)
      | Some ph \<Rightarrow>
          (case hoist dt L ph g (iter (InvariantSet L g)) of
             Inl e \<Rightarrow> Inl e
           | Inr g' \<Rightarrow> Inr (g', PreservedNone)))"

text \<open>
  The set the specification describes: the closure, from the instructions of the loop
  with no operand defined in the loop, of "not a merge point, no memory access, every
  operand defined in the loop is in the set".
\<close>

inductive_set invariantClosure :: "loop \<Rightarrow> func \<Rightarrow> instr_id set" for L :: loop and g :: func where
  start: "contains L g i \<Longrightarrow> \<not> isPHI g i \<Longrightarrow> \<not> mayReadOrWriteMemory (inst g i) \<Longrightarrow>
          (\<And>j. Inst j \<in> set (operands (inst g i)) \<Longrightarrow> \<not> contains L g j) \<Longrightarrow>
          i \<in> invariantClosure L g"
| step: "contains L g u \<Longrightarrow> \<not> isPHI g u \<Longrightarrow> \<not> mayReadOrWriteMemory (inst g u) \<Longrightarrow>
         (\<And>j. Inst j \<in> set (operands (inst g u)) \<Longrightarrow> contains L g j \<Longrightarrow> j \<in> invariantClosure L g) \<Longrightarrow>
         u \<in> invariantClosure L g"

text \<open>No member of the set has an operand defined in the loop that is outside the set.\<close>

definition operandClosed :: "loop \<Rightarrow> func \<Rightarrow> instr_id list \<Rightarrow> bool" where
  "operandClosed L g s =
     list_all (\<lambda>i. list_all (\<lambda>v. case v of Inst j \<Rightarrow> contains L g j \<longrightarrow> j \<in> set s | _ \<Rightarrow> True)
                         (operands (inst g i))) s"

text \<open>
  The use lists are complete on the loop: an instruction of the loop that has an
  instruction of the loop as an operand is in that operand's use list.
\<close>

definition usersComplete :: "loop \<Rightarrow> func \<Rightarrow> bool" where
  "usersComplete L g =
     list_all (\<lambda>u. list_all (\<lambda>v. case v of Inst j \<Rightarrow> contains L g j \<longrightarrow> u \<in> set (users g j) | _ \<Rightarrow> True)
                         (operands (inst g u))) (loopInstrs L g)"

text \<open>The two checks of line 102, and the block lists after hoisting the list \<open>hs\<close>.\<close>

definition hoistable :: "(block_id \<Rightarrow> block_id \<Rightarrow> bool) \<Rightarrow> loop \<Rightarrow> func \<Rightarrow> instr_id \<Rightarrow> bool" where
  "hoistable dt L g i = (isSafeToSpeculativelyExecute (inst g i) \<and> dominatesAllLoopExits dt g i L)"

definition hoistedBody :: "func \<Rightarrow> block_id \<Rightarrow> instr_id list \<Rightarrow> block_id \<Rightarrow> instr_id list" where
  "hoistedBody g ph hs b =
     (if b = ph then butlast (body g ph) @ hs @ [last (body g ph)]
      else filter (\<lambda>x. x \<notin> set hs) (body g b))"

text \<open>
  An instruction the passes may put into the set: in the loop, not a merge point, no
  memory access.
\<close>

definition eligible :: "loop \<Rightarrow> func \<Rightarrow> instr_id \<Rightarrow> bool" where
  "eligible L g u = (contains L g u \<and> \<not> isPHI g u \<and> \<not> mayReadOrWriteMemory (inst g u))"

text \<open>
  What the worklist still owes: an instruction that qualifies and is not yet in the set
  has an operand on the worklist.
\<close>

definition pending :: "loop \<Rightarrow> func \<Rightarrow> instr_id list \<Rightarrow> instr_id list \<Rightarrow> bool" where
  "pending L g s w =
     (\<forall>u. eligible L g u \<and> u \<notin> set s \<and> allOperandsSafe L g s u \<longrightarrow>
          (\<exists>j\<in>set w. Inst j \<in> set (operands (inst g u)) \<and> contains L g j))"

section \<open>DerivedInductionVars\<close>

text \<open>
  What the recurrence analysis says of a value: a constant, an add recurrence of a loop
  with its start, its step and its further operands (affine when there are none), or
  anything else. The analysis keeps one object per expression, so the pointer
  comparison of line 94 is equality.
\<close>

datatype scev =
    SCEVConstant nat int
  | SCEVAddRecExpr loop_id scev scev "scev list"
  | SCEVUnknown nat

text \<open>
  The analyses of the host, read through their interface on the graph as it is at the
  moment of the call: \<open>SE.getSCEV\<close>, \<open>L->getCanonicalInductionVariable()\<close>,
  \<open>Expander.isSafeToExpand\<close> and \<open>Expander.expandCodeFor\<close>. The expander yields the
  instructions it inserts at the insertion point, in order, and the value that holds
  the result, or nothing when it returns null.
\<close>

record analyses =
  getSCEV :: "func \<Rightarrow> instr_id \<Rightarrow> scev"
  getCanonicalInductionVariable :: "func \<Rightarrow> loop \<Rightarrow> instr_id option"
  isSafeToExpand :: "scev \<Rightarrow> bool"
  expandCodeFor :: "func \<Rightarrow> scev \<Rightarrow> ty \<Rightarrow> (instr list \<times> val) option"

text \<open>\<open>V->getType()\<close>.\<close>

definition typeOf :: "func \<Rightarrow> val \<Rightarrow> ty" where
  "typeOf g v = (case v of Inst i \<Rightarrow> getType (inst g i) | ConstantInt w c \<Rightarrow> IntegerTy w | OtherVal t n \<Rightarrow> t)"

text \<open>\<open>BB->getFirstNonPHI()\<close> and \<open>BB->phis()\<close>.\<close>

definition getFirstNonPHI :: "func \<Rightarrow> block_id \<Rightarrow> instr_id option" where
  "getFirstNonPHI g b = find (\<lambda>i. \<not> isPHI g i) (body g b)"

definition phis :: "func \<Rightarrow> block_id \<Rightarrow> instr_id list" where
  "phis g b = takeWhile (isPHI g) (body g b)"

text \<open>
  A new instruction is linked in front of the insertion point, takes the next free
  identity and enters the use list of each operand that is an instruction, at its
  head.
\<close>

definition addUses :: "instr_id \<Rightarrow> val list \<Rightarrow> (instr_id \<Rightarrow> instr_id list) \<Rightarrow> instr_id \<Rightarrow> instr_id list" where
  "addUses i ops us = foldl (\<lambda>f v. case v of Inst j \<Rightarrow> f(j := i # f j) | _ \<Rightarrow> f) us ops"

definition insertInstr :: "func \<Rightarrow> instr_id \<Rightarrow> instr \<Rightarrow> func" where
  "insertInstr g ip new =
     g\<lparr>body := (\<lambda>b. insertBefore ip (fresh g) (body g b)),
       inst := (inst g)(fresh g := new),
       users := addUses (fresh g) (operands new) (users g),
       fresh := Suc (fresh g)\<rparr>"

text \<open>
  \<open>IRBuilder::CreateMul\<close> and \<open>CreateAdd\<close> in front of the insertion point. An operand
  is an instruction here, so nothing is folded; the result has the type of the left
  operand.
\<close>

definition CreateBinOp :: "opcode \<Rightarrow> func \<Rightarrow> instr_id \<Rightarrow> val \<Rightarrow> val \<Rightarrow> func \<times> val" where
  "CreateBinOp oc g ip lhs rhs =
     (insertInstr g ip
        \<lparr>opcode = oc, getType = typeOf g lhs, operands = [lhs, rhs],
         mayReadOrWriteMemory = False, isSafeToSpeculativelyExecute = True,
         isTerminator = False\<rparr>,
      Inst (fresh g))"

text \<open>
  \<open>PN.replaceAllUsesWith(NewVal)\<close>: every operand that is \<open>PN\<close> becomes \<open>NewVal\<close>,
  and the uses move from the use list of \<open>PN\<close> to the head of the use list of
  \<open>NewVal\<close>, one at a time.
\<close>

definition replaceAllUsesWith :: "func \<Rightarrow> instr_id \<Rightarrow> val \<Rightarrow> func" where
  "replaceAllUsesWith g pn new =
     g\<lparr>inst := (\<lambda>u. (inst g u)\<lparr>operands := map (\<lambda>v. if v = Inst pn then new else v)
                                                   (operands (inst g u))\<rparr>),
       users := (case new of
                   Inst a \<Rightarrow> (users g)(pn := [], a := rev (users g pn) @ users g a)
                 | _ \<Rightarrow> (users g)(pn := []))\<rparr>"

text \<open>
  \<open>Dead->eraseFromParent()\<close>: the instruction is unlinked from its block and destroyed,
  which drops its operands and so its entries in their use lists.
\<close>

definition eraseFromParent :: "func \<Rightarrow> instr_id \<Rightarrow> func" where
  "eraseFromParent g d =
     g\<lparr>body := (\<lambda>b. filter (\<lambda>x. x \<noteq> d) (body g b)),
       inst := (inst g)(d := (inst g d)\<lparr>operands := []\<rparr>),
       users := (\<lambda>j. filter (\<lambda>x. x \<noteq> d) (users g j))\<rparr>"

text \<open>Lines 100-108: a constant start or step is used as it is.\<close>

definition constantValue :: "scev \<Rightarrow> val option" where
  "constantValue s = (case s of SCEVConstant w c \<Rightarrow> Some (ConstantInt w c) | _ \<Rightarrow> None)"

text \<open>
  Lines 117-132: a start or step that is not a constant is materialised in front of the
  preheader's terminator; the graph keeps what the expander inserted.
\<close>

definition materialize ::
  "analyses \<Rightarrow> func \<Rightarrow> scev \<Rightarrow> ty \<Rightarrow> instr_id \<Rightarrow> val option \<Rightarrow> func \<times> val option" where
  "materialize A g s t ip known =
     (case known of
        Some v \<Rightarrow> (g, Some v)
      | None \<Rightarrow>
          (case expandCodeFor A g s t of
             None \<Rightarrow> (g, None)
           | Some (new, v) \<Rightarrow> (foldl (\<lambda>g' n. insertInstr g' ip n) g new, Some v)))"

text \<open>Lines 135-143: the two new instructions, the redirection of the uses.\<close>

definition rewritePHI :: "func \<Rightarrow> instr_id \<Rightarrow> instr_id \<Rightarrow> val \<Rightarrow> val \<Rightarrow> instr_id \<Rightarrow> func" where
  "rewritePHI g hi basicIV startVal stepVal pn =
     (let (g1, mul) = CreateBinOp Mul g hi (Inst basicIV) stepVal;
          (g2, newVal) = CreateBinOp Add g1 hi startVal mul
      in replaceAllUsesWith g2 pn newVal)"

text \<open>
  Lines 72-149: the body of the scan for one merge point of the header. The state is
  the graph, \<open>DeadPHIs\<close> and \<open>loop_flag\<close>; \<open>hi\<close> is \<open>HeaderInsert\<close> and \<open>pi\<close> is
  \<open>PreheaderInsert\<close>.
\<close>

definition processPHI ::
  "analyses \<Rightarrow> loop \<Rightarrow> instr_id \<Rightarrow> instr_id option \<Rightarrow> func \<times> instr_id list \<times> bool \<Rightarrow> instr_id
     \<Rightarrow> func \<times> instr_id list \<times> bool" where
  "processPHI A L hi pi st pn =
     (case st of (g, dead, flag) \<Rightarrow>
      (case getType (inst g pn) of
         OtherTy \<Rightarrow> st
       | IntegerTy w \<Rightarrow>
          (case getSCEV A g pn of
             SCEVAddRecExpr l startSCEV stepSCEV further \<Rightarrow>
               if l = loopId L \<and> further = [] then
                 (case getCanonicalInductionVariable A g L of
                    None \<Rightarrow> st
                  | Some basicIV \<Rightarrow>
                      if \<not> isSafeToExpand A (getSCEV A g pn) \<or> getSCEV A g pn = getSCEV A g basicIV
                      then st
                      else if constantValue startSCEV = None \<or> constantValue stepSCEV = None then
                        (case pi of
                           None \<Rightarrow> st
                         | Some ip \<Rightarrow>
                             (case materialize A g startSCEV (IntegerTy w) ip (constantValue startSCEV) of
                                (g1, None) \<Rightarrow> (g1, dead, flag)
                              | (g1, Some startVal) \<Rightarrow>
                                  (case materialize A g1 stepSCEV (IntegerTy w) ip (constantValue stepSCEV) of
                                     (g2, None) \<Rightarrow> (g2, dead, flag)
                                   | (g2, Some stepVal) \<Rightarrow>
                                       (rewritePHI g2 hi basicIV startVal stepVal pn, dead @ [pn], True))))
                      else
                        (rewritePHI g hi basicIV (the (constantValue startSCEV))
                           (the (constantValue stepSCEV)) pn, dead @ [pn], True))
               else st
           | _ \<Rightarrow> st)))"

text \<open>
  Lines 53-154 once header and insertion point are known: the scan over the merge
  points of the header, then the deletion of the recorded ones.
\<close>

definition scanHeader :: "analyses \<Rightarrow> loop \<Rightarrow> block_id \<Rightarrow> instr_id \<Rightarrow> func \<Rightarrow> func \<times> instr_id list \<times> bool" where
  "scanHeader A L h hi g =
     foldl (processPHI A L hi (case getLoopPreheader L of None \<Rightarrow> None | Some p \<Rightarrow> getTerminator g p))
       (g, [], False) (phis g h)"

definition rewriteLoop :: "analyses \<Rightarrow> loop \<Rightarrow> block_id \<Rightarrow> instr_id \<Rightarrow> func \<Rightarrow> func \<times> bool" where
  "rewriteLoop A L h hi g =
     (case scanHeader A L h hi g of (g1, dead, flag) \<Rightarrow> (foldl eraseFromParent g1 dead, flag))"

text \<open>
  Lines 46-159. The value a call on a sub-loop returns is dropped (line 156); the
  result is \<open>loop_flag\<close>. Line 48 reads the name of the header before line 53
  tests the header, and the loop analysis of the host gives every loop a header; the
  branch for a loop without one is the test of line 53 as it is written, and it is
  never taken in a run.
\<close>

fun analyzeLoopRecursively :: "analyses \<Rightarrow> loop \<Rightarrow> func \<Rightarrow> bool \<times> func"
  and analyzeSubLoops :: "analyses \<Rightarrow> loop list \<Rightarrow> func \<Rightarrow> func" where
  "analyzeLoopRecursively A (Loop n header bs ph ex subs) g =
     (case header of
        None \<Rightarrow> (False, g)
      | Some h \<Rightarrow>
          (case getFirstNonPHI g h of
             None \<Rightarrow> (False, g)
           | Some hi \<Rightarrow>
               (case rewriteLoop A (Loop n header bs ph ex subs) h hi g of
                  (g1, flag) \<Rightarrow> (flag, analyzeSubLoops A subs g1))))"
| "analyzeSubLoops A [] g = g"
| "analyzeSubLoops A (S # rest) g = analyzeSubLoops A rest (snd (analyzeLoopRecursively A S g))"

text \<open>Lines 29-44: \<open>LI\<close> is the list of the top-level loops of the function.\<close>

definition runStep :: "analyses \<Rightarrow> bool \<times> func \<Rightarrow> loop \<Rightarrow> bool \<times> func" where
  "runStep A cg L =
     (case analyzeLoopRecursively A L (snd cg) of
        (r, g') \<Rightarrow> (if r then True else fst cg, g'))"

definition DerivedInductionVars_run :: "analyses \<Rightarrow> loop list \<Rightarrow> func \<Rightarrow> func \<times> preserved" where
  "DerivedInductionVars_run A LI g =
     (case foldl (runStep A) (False, g) LI of
        (changed, g') \<Rightarrow> (g', if changed then PreservedNone else PreservedAll))"

text \<open>A loop and all the loops nested in it.\<close>

fun loopsOf :: "loop \<Rightarrow> loop list" where
  "loopsOf (Loop n header bs ph ex subs) = Loop n header bs ph ex subs # concat (map loopsOf subs)"

text \<open>An affine add recurrence of the loop (line 79).\<close>

definition affineRecurrenceOf :: "loop \<Rightarrow> scev \<Rightarrow> bool" where
  "affineRecurrenceOf L s =
     (case s of SCEVAddRecExpr l a b further \<Rightarrow> l = loopId L \<and> further = [] | _ \<Rightarrow> False)"

text \<open>
  A loop that is already simplified: each merge point of its header is not of integer
  type, or is not an affine recurrence of the loop, or is the canonical counter.
\<close>

definition simplifiedLoop :: "analyses \<Rightarrow> func \<Rightarrow> loop \<Rightarrow> bool" where
  "simplifiedLoop A g L =
     (case getHeader L of
        None \<Rightarrow> True
      | Some h \<Rightarrow>
          list_all (\<lambda>pn. getType (inst g pn) = OtherTy \<or>
                          \<not> affineRecurrenceOf L (getSCEV A g pn) \<or>
                          getCanonicalInductionVariable A g L = Some pn) (phis g h))"






text \<open>A loop on which the scan of the header changes nothing.\<close>

definition quiet :: "analyses \<Rightarrow> func \<Rightarrow> loop \<Rightarrow> bool" where
  "quiet A g L =
     (\<forall>h hi pn. getHeader L = Some h \<longrightarrow> pn \<in> set (phis g h) \<longrightarrow>
        processPHI A L hi (case getLoopPreheader L of None \<Rightarrow> None | Some p \<Rightarrow> getTerminator g p)
          (g, [], False) pn = (g, [], False))"

text \<open>Nothing refers to the instruction: its use list is empty and it is an operand of nothing.\<close>

definition noRef :: "func \<Rightarrow> instr_id \<Rightarrow> bool" where
  "noRef g p = (users g p = [] \<and> (\<forall>u. Inst p \<notin> set (operands (inst g u))))"

text \<open>
  What the pass relies on from the host. The canonical counter that the loop analysis
  reports is an operand of some instruction (its own increment). The expander, on a
  graph whose free identities lie above the merge points \<open>ps\<close>, never refers to one of
  them, neither in the instructions it inserts nor in the value it returns, and returns
  an instruction only if it exists once the inserted ones are linked.
\<close>

definition canonicalIsUsed :: "analyses \<Rightarrow> loop \<Rightarrow> bool" where
  "canonicalIsUsed A L =
     (\<forall>g p. getCanonicalInductionVariable A g L = Some p \<longrightarrow>
        (\<exists>u. Inst p \<in> set (operands (inst g u))))"

definition expanderAvoids :: "analyses \<Rightarrow> instr_id list \<Rightarrow> bool" where
  "expanderAvoids A ps =
     (\<forall>g s t new v. (\<forall>p\<in>set ps. p < fresh g) \<longrightarrow> expandCodeFor A g s t = Some (new, v) \<longrightarrow>
        (\<forall>p\<in>set ps. v \<noteq> Inst p \<and> (\<forall>n\<in>set new. Inst p \<notin> set (operands n))) \<and>
        (\<forall>i. v = Inst i \<longrightarrow> i < fresh g + length new))"

text \<open>
  The meaning of the integer instructions the pass creates. A store gives each
  instruction the value it holds in the current iteration, an environment gives the
  values that are not instructions; an integer of width \<open>w\<close> is kept modulo \<open>2 ^ w\<close>.
  Executing an addition or a multiplication of integer type writes its result to the
  store.
\<close>

definition valOf :: "(nat \<Rightarrow> int) \<Rightarrow> (instr_id \<Rightarrow> int) \<Rightarrow> val \<Rightarrow> int" where
  "valOf env st v = (case v of Inst i \<Rightarrow> st i | ConstantInt w c \<Rightarrow> c mod 2 ^ w | OtherVal t n \<Rightarrow> env n)"

definition execInstr :: "func \<Rightarrow> (nat \<Rightarrow> int) \<Rightarrow> (instr_id \<Rightarrow> int) \<Rightarrow> instr_id \<Rightarrow> (instr_id \<Rightarrow> int)" where
  "execInstr g env st i =
     (case (opcode (inst g i), getType (inst g i), operands (inst g i)) of
        (Add, IntegerTy w, [x, y]) \<Rightarrow> st(i := (valOf env st x + valOf env st y) mod 2 ^ w)
      | (Mul, IntegerTy w, [x, y]) \<Rightarrow> st(i := (valOf env st x * valOf env st y) mod 2 ^ w)
      | _ \<Rightarrow> st)"

text \<open>
  The values of a merge point of width \<open>w\<close> that starts at \<open>start\<close> and grows by
  \<open>step\<close> on every iteration.
\<close>

fun affineValue :: "nat \<Rightarrow> int \<Rightarrow> int \<Rightarrow> nat \<Rightarrow> int" where
  "affineValue w start step 0 = start mod 2 ^ w"
| "affineValue w start step (Suc n) = (affineValue w start step n + step) mod 2 ^ w"

text \<open>
  What the scan keeps, with \<open>ps\<close> the merge points of the header and \<open>g0\<close> the
  graph at its start: the recorded merge points are among \<open>ps\<close> and nothing refers to
  them, the free identities lie above \<open>ps\<close>, no instruction has been unlinked, and
  the flag is set exactly when a merge point has been recorded.
\<close>

definition scanInv :: "instr_id list \<Rightarrow> func \<Rightarrow> func \<times> instr_id list \<times> bool \<Rightarrow> bool" where
  "scanInv ps g0 st =
     (case st of (g, dead, flag) \<Rightarrow>
        set dead \<subseteq> set ps \<and> (\<forall>p\<in>set dead. noRef g p) \<and> (\<forall>p\<in>set ps. p < fresh g) \<and>
        (\<forall>b. set (body g0 b) \<subseteq> set (body g b)) \<and> (flag = (dead \<noteq> [])))"

text \<open>
  The redirection of the uses. \<open>repl\<close> gives each recorded merge point the
  instruction that replaced it; an operand that is a recorded merge point becomes that
  instruction, any other operand stays.
\<close>

definition redirect :: "(instr_id \<Rightarrow> instr_id) \<Rightarrow> instr_id list \<Rightarrow> val \<Rightarrow> val" where
  "redirect repl dead v =
     (case v of Inst p \<Rightarrow> if p \<in> set dead then Inst (repl p) else v | _ \<Rightarrow> v)"

text \<open>
  The instruction \<open>a\<close> is an addition that the pass created (its identity was free
  in \<open>g0\<close>), it is linked in the block \<open>h\<close>, and its second operand is a
  multiplication that the pass created and that is linked in \<open>h\<close>: the shape of
  lines 137-138.
\<close>

fun sumOfProduct :: "instr_id \<Rightarrow> func \<Rightarrow> block_id \<Rightarrow> val list \<Rightarrow> bool" where
  "sumOfProduct lo g h [sv, Inst m] =
     (lo \<le> m \<and> m < fresh g \<and> m \<in> set (body g h) \<and> opcode (inst g m) = Mul)"
| "sumOfProduct lo g h ops = False"

definition synthesizedAdd :: "func \<Rightarrow> func \<Rightarrow> block_id \<Rightarrow> instr_id \<Rightarrow> bool" where
  "synthesizedAdd g0 g h a =
     (fresh g0 \<le> a \<and> a < fresh g \<and> a \<in> set (body g h) \<and> opcode (inst g a) = Add \<and>
      sumOfProduct (fresh g0) g h (operands (inst g a)))"

text \<open>
  What the scan keeps about the uses, with \<open>g0\<close> the graph at its start: the
  insertion point stays linked in the header; each instruction of \<open>g0\<close> has the
  operands it had, redirected; each recorded merge point is replaced by an addition of
  its own, of the shape above, whose use list holds the users the merge point had in
  \<open>g0\<close>; a merge point not yet recorded has kept its users.
\<close>

definition redirected ::
  "block_id \<Rightarrow> instr_id \<Rightarrow> instr_id list \<Rightarrow> func \<Rightarrow> (instr_id \<Rightarrow> instr_id) \<Rightarrow>
     func \<times> instr_id list \<times> bool \<Rightarrow> bool" where
  "redirected h hi ps g0 repl st =
     (case st of (g, dead, flag) \<Rightarrow>
        fresh g0 \<le> fresh g \<and> hi \<in> set (body g h) \<and>
        (\<forall>u<fresh g0. operands (inst g u) = map (redirect repl dead) (operands (inst g0 u))) \<and>
        (\<forall>p\<in>set dead. synthesizedAdd g0 g h (repl p) \<and> set (users g0 p) \<subseteq> set (users g (repl p))) \<and>
        (\<forall>p\<in>set ps. p \<notin> set dead \<longrightarrow> set (users g0 p) \<subseteq> set (users g p)) \<and>
        inj_on repl (set dead))"

section \<open>Concrete loops\<close>

text \<open>
  The dominator tree is the host's analysis. For the concrete loops below it is computed
  from the successor lists as the glossary of the specification defines dominance:
  block \<open>a\<close> dominates block \<open>b\<close> if every path from the entry to \<open>b\<close> passes
  through \<open>a\<close>, that is, \<open>b\<close> cannot be reached from the entry once \<open>a\<close> is
  removed. \<open>n\<close> bounds the number of blocks.
\<close>

fun reach :: "(block_id \<Rightarrow> block_id list) \<Rightarrow> block_id \<Rightarrow> nat \<Rightarrow> block_id list \<Rightarrow> block_id list" where
  "reach succs a 0 seen = seen"
| "reach succs a (Suc n) seen =
     reach succs a n (remdups (seen @ filter (\<lambda>b. b \<noteq> a) (concat (map succs seen))))"

definition cfgDominates ::
  "(block_id \<Rightarrow> block_id list) \<Rightarrow> block_id \<Rightarrow> nat \<Rightarrow> block_id \<Rightarrow> block_id \<Rightarrow> bool" where
  "cfgDominates succs entry n a b =
     (a = b \<or> b \<notin> set (reach succs a n (if entry = a then [] else [entry])))"

text \<open>An instruction from its opcode, type, operands and the three flags.\<close>

definition mkInstr :: "opcode \<Rightarrow> ty \<Rightarrow> val list \<Rightarrow> bool \<Rightarrow> bool \<Rightarrow> bool \<Rightarrow> instr" where
  "mkInstr oc t ops m s tm =
     \<lparr>opcode = oc, getType = t, operands = ops, mayReadOrWriteMemory = m,
      isSafeToSpeculativelyExecute = s, isTerminator = tm\<rparr>"

text \<open>
  A loop of one block (block 3) with preheader 2 (the entry) and exit 4. In the loop: the counter
  \<open>10\<close> (a merge point) and its increment \<open>14\<close>; the chain \<open>11 = 3 + 4\<close>,
  \<open>12 = 11 + x\<close> with \<open>x\<close> an argument, \<open>13 = 12 * 2\<close>; a load \<open>15\<close>; the
  branch \<open>16\<close>.
\<close>

definition chainInst :: "instr_id \<Rightarrow> instr" where
  "chainInst =
     (\<lambda>_. mkInstr OtherOp OtherTy [] False False False)
     (9 := mkInstr OtherOp OtherTy [OtherVal OtherTy 101] False False True,
      10 := mkInstr PHI (IntegerTy 32) [ConstantInt 32 0, Inst 14] False False False,
      11 := mkInstr Add (IntegerTy 32) [ConstantInt 32 3, ConstantInt 32 4] False True False,
      12 := mkInstr Add (IntegerTy 32) [Inst 11, OtherVal (IntegerTy 32) 0] False True False,
      13 := mkInstr Mul (IntegerTy 32) [Inst 12, ConstantInt 32 2] False True False,
      14 := mkInstr Add (IntegerTy 32) [Inst 10, ConstantInt 32 1] False True False,
      15 := mkInstr OtherOp (IntegerTy 32) [OtherVal OtherTy 1] True False False,
      16 := mkInstr OtherOp OtherTy [Inst 14, OtherVal OtherTy 101, OtherVal OtherTy 102] False False True,
      20 := mkInstr OtherOp OtherTy [Inst 13] False False True)"

definition chainG :: func where
  "chainG =
     \<lparr>body = (\<lambda>_. [])(2 := [9], 3 := [10, 11, 12, 13, 14, 15, 16], 4 := [20]),
      inst = chainInst,
      users = (\<lambda>_. [])(10 := [14], 11 := [12], 12 := [13], 13 := [20], 14 := [16, 10]),
      fresh = 21\<rparr>"

definition chainL :: loop where
  "chainL = Loop 0 (Some 3) [3] (Some 2) [4] []"

definition chainSuccs :: "block_id \<Rightarrow> block_id list" where
  "chainSuccs = (\<lambda>_. [])(2 := [3], 3 := [3, 4])"

definition chainDT :: "block_id \<Rightarrow> block_id \<Rightarrow> bool" where
  "chainDT = cfgDominates chainSuccs 2 3"

text \<open>
  The same loop with \<open>11\<close> a division of two arguments: it is invariant but not
  safe to execute speculatively.
\<close>

definition udivInst :: "instr_id \<Rightarrow> instr" where
  "udivInst = chainInst(11 := mkInstr OtherOp (IntegerTy 32) [OtherVal (IntegerTy 32) 2, OtherVal (IntegerTy 32) 3] False False False)"

definition udivG :: func where
  "udivG = chainG\<lparr>inst := udivInst\<rparr>"

text \<open>
  A loop with a conditional block: the preheader 2 (the entry) enters the header 3,
  which branches to block 4 or to the latch 5; block 4 falls through to 5; the latch
  branches back to 3 or leaves to the exit 6. Instruction \<open>30 = x + 1\<close> in block 4
  has no operand in the loop.
\<close>

definition condInst :: "instr_id \<Rightarrow> instr" where
  "condInst =
     (\<lambda>_. mkInstr OtherOp OtherTy [] False False False)
     (9 := mkInstr OtherOp OtherTy [OtherVal OtherTy 101] False False True,
      10 := mkInstr PHI (IntegerTy 32) [ConstantInt 32 0, Inst 14] False False False,
      16 := mkInstr OtherOp OtherTy [Inst 10, OtherVal OtherTy 102, OtherVal OtherTy 103] False False True,
      30 := mkInstr Add (IntegerTy 32) [OtherVal (IntegerTy 32) 0, ConstantInt 32 1] False True False,
      31 := mkInstr OtherOp OtherTy [OtherVal OtherTy 103] False False True,
      14 := mkInstr Add (IntegerTy 32) [Inst 10, ConstantInt 32 1] False True False,
      36 := mkInstr OtherOp OtherTy [Inst 14, OtherVal OtherTy 101, OtherVal OtherTy 104] False False True,
      20 := mkInstr OtherOp OtherTy [Inst 30] False False True)"

definition condG :: func where
  "condG =
     \<lparr>body = (\<lambda>_. [])(2 := [9], 3 := [10, 16], 4 := [30, 31], 5 := [14, 36], 6 := [20]),
      inst = condInst,
      users = (\<lambda>_. [])(10 := [14, 16], 14 := [36, 10], 30 := [20]),
      fresh = 37\<rparr>"

definition condL :: loop where
  "condL = Loop 0 (Some 3) [3, 4, 5] (Some 2) [6] []"

definition condSuccs :: "block_id \<Rightarrow> block_id list" where
  "condSuccs = (\<lambda>_. [])(2 := [3], 3 := [4, 5], 4 := [5], 5 := [3, 6])"

definition condDT :: "block_id \<Rightarrow> block_id \<Rightarrow> bool" where
  "condDT = cfgDominates condSuccs 2 5"

text \<open>The chain loop as the loop analysis reports it when it has no preheader.\<close>

definition noPreheaderL :: loop where
  "noPreheaderL = Loop 0 (Some 3) [3] None [4] []"

text \<open>
  A canonical counter as \<open>Loop::getCanonicalInductionVariable\<close> recognises it, on
  this graph: the first merge point of the header that starts at the constant zero and
  whose other incoming value is the addition of the merge point and the constant one.
\<close>

fun canonicalShape :: "func \<Rightarrow> instr_id \<Rightarrow> val list \<Rightarrow> bool" where
  "canonicalShape g p [ConstantInt w c, Inst inc] =
     (c = 0 \<and> opcode (inst g inc) = Add \<and> operands (inst g inc) = [Inst p, ConstantInt w 1])"
| "canonicalShape g p ops = False"

definition isCanonicalPHI :: "func \<Rightarrow> instr_id \<Rightarrow> bool" where
  "isCanonicalPHI g p = canonicalShape g p (operands (inst g p))"

definition findCanonical :: "func \<Rightarrow> loop \<Rightarrow> instr_id option" where
  "findCanonical g L =
     (case getHeader L of None \<Rightarrow> None | Some h \<Rightarrow> find (isCanonicalPHI g) (phis g h))"

text \<open>
  The loop of the specification's example, header 3 with preheader 2 and exit 4: the
  canonical counter \<open>10\<close> with increment \<open>14\<close>, and the merge point \<open>11\<close> that
  starts at 10 and grows by 5 (increment \<open>15\<close>); \<open>11\<close> is used by the store
  \<open>12\<close> in the loop and by the return \<open>20\<close> after it. Block 5 is the header of an
  enclosing loop without merge points.
\<close>

definition ivInst :: "instr_id \<Rightarrow> instr" where
  "ivInst =
     (\<lambda>_. mkInstr OtherOp OtherTy [] False False False)
     (9 := mkInstr OtherOp OtherTy [OtherVal OtherTy 101] False False True,
      10 := mkInstr PHI (IntegerTy 32) [ConstantInt 32 0, Inst 14] False False False,
      11 := mkInstr PHI (IntegerTy 32) [ConstantInt 32 10, Inst 15] False False False,
      12 := mkInstr OtherOp OtherTy [OtherVal OtherTy 1, Inst 11] True False False,
      14 := mkInstr Add (IntegerTy 32) [Inst 10, ConstantInt 32 1] False True False,
      15 := mkInstr Add (IntegerTy 32) [Inst 11, ConstantInt 32 5] False True False,
      16 := mkInstr OtherOp OtherTy [Inst 14, OtherVal OtherTy 101, OtherVal OtherTy 102] False False True,
      20 := mkInstr OtherOp OtherTy [Inst 11] False False True,
      40 := mkInstr OtherOp OtherTy [OtherVal OtherTy 103] False False True)"

definition ivG :: func where
  "ivG =
     \<lparr>body = (\<lambda>_. [])(2 := [9], 3 := [10, 11, 12, 14, 15, 16], 4 := [20], 5 := [40]),
      inst = ivInst,
      users = (\<lambda>_. [])(10 := [14], 11 := [20, 15, 12], 14 := [16, 10], 15 := [11]),
      fresh = 41\<rparr>"

definition ivL :: loop where
  "ivL = Loop 1 (Some 3) [3] (Some 2) [4] []"


definition nestL :: loop where
  "nestL = Loop 0 (Some 5) [5, 2, 3, 4] None [] [ivL]"

text \<open>
  The recurrence analysis on this loop: \<open>10\<close> is \<open>{0,+,1}\<close>, \<open>11\<close> is
  \<open>{10,+,5}\<close>; every recurrence is safe to expand; the expander is never needed.
\<close>

definition ivSCEV :: "func \<Rightarrow> instr_id \<Rightarrow> scev" where
  "ivSCEV g i =
     (if i = 10 then SCEVAddRecExpr 1 (SCEVConstant 32 0) (SCEVConstant 32 1) []
      else if i = 11 then SCEVAddRecExpr 1 (SCEVConstant 32 10) (SCEVConstant 32 5) []
      else SCEVUnknown i)"

definition ivA :: analyses where
  "ivA = \<lparr>getSCEV = ivSCEV, getCanonicalInductionVariable = findCanonical,
          isSafeToExpand = (\<lambda>s. True), expandCodeFor = (\<lambda>g s t. None)\<rparr>"

text \<open>
  The same loop when the analysis reports the start of \<open>11\<close> as an expression that
  is not a constant; the expander materialises it as one addition.
\<close>

definition symbolicA :: analyses where
  "symbolicA =
     ivA\<lparr>getSCEV := (\<lambda>g i. if i = 11
                               then SCEVAddRecExpr 1 (SCEVUnknown 7) (SCEVConstant 32 5) []
                               else ivSCEV g i),
         expandCodeFor := (\<lambda>g s t.
            if s = SCEVUnknown 7
            then Some ([mkInstr Add t [OtherVal t 7, ConstantInt 32 1] False True False], Inst (fresh g))
            else None)\<rparr>"

text \<open>
  The example loop with a canonical counter of another width than the merge point
  \<open>11\<close>: eight bits in \<open>narrowG\<close>, sixty-four in \<open>wideG\<close>.
\<close>

definition narrowG :: func where
  "narrowG =
     ivG\<lparr>inst := ivInst
        (10 := mkInstr PHI (IntegerTy 8) [ConstantInt 8 0, Inst 14] False False False,
         14 := mkInstr Add (IntegerTy 8) [Inst 10, ConstantInt 8 1] False True False)\<rparr>"

definition narrowA :: analyses where
  "narrowA =
     ivA\<lparr>getSCEV := (\<lambda>g i. if i = 10
                               then SCEVAddRecExpr 1 (SCEVConstant 8 0) (SCEVConstant 8 1) []
                               else ivSCEV g i)\<rparr>"

definition wideG :: func where
  "wideG =
     ivG\<lparr>inst := ivInst
        (10 := mkInstr PHI (IntegerTy 64) [ConstantInt 64 0, Inst 14] False False False,
         14 := mkInstr Add (IntegerTy 64) [Inst 10, ConstantInt 64 1] False True False)\<rparr>"

definition wideA :: analyses where
  "wideA =
     ivA\<lparr>getSCEV := (\<lambda>g i. if i = 10
                               then SCEVAddRecExpr 1 (SCEVConstant 64 0) (SCEVConstant 64 1) []
                               else ivSCEV g i)\<rparr>"

section \<open>Properties of SimpleLICM\<close>


lemma allOperandsSafe_iff:
  "allOperandsSafe L g s u \<longleftrightarrow>
     (\<forall>j. Inst j \<in> set (operands (inst g u)) \<longrightarrow> contains L g j \<longrightarrow> j \<in> set s)"
  by (auto simp: allOperandsSafe_def list_all_iff split: val.splits)

lemma allOperandsInvariant_iff:
  "allOperandsInvariant L g i \<longleftrightarrow>
     (\<forall>j. Inst j \<in> set (operands (inst g i)) \<longrightarrow> \<not> contains L g j)"
  by (auto simp: allOperandsInvariant_def list_all_iff split: val.splits)

lemma operandClosed_iff:
  "operandClosed L g s \<longleftrightarrow>
     (\<forall>i\<in>set s. \<forall>j. Inst j \<in> set (operands (inst g i)) \<longrightarrow> contains L g j \<longrightarrow> j \<in> set s)"
  by (auto simp: operandClosed_def list_all_iff split: val.splits)

lemma usersComplete_iff:
  "usersComplete L g \<longleftrightarrow>
     (\<forall>u j. contains L g u \<longrightarrow> Inst j \<in> set (operands (inst g u)) \<longrightarrow> contains L g j
        \<longrightarrow> u \<in> set (users g j))"
  by (auto simp: usersComplete_def contains_def list_all_iff split: val.splits)

lemma seedStep_set:
  "set (fst (seedStep L g sw i)) =
     set (fst sw) \<union> (if \<not> isPHI g i \<and> \<not> mayReadOrWriteMemory (inst g i) \<and> allOperandsInvariant L g i
                      then {i} else {})"
  "set (snd (seedStep L g sw i)) =
     set (snd sw) \<union> (if \<not> isPHI g i \<and> \<not> mayReadOrWriteMemory (inst g i) \<and> allOperandsInvariant L g i
                      then {i} else {})"
  by (auto simp: seedStep_def set_insert_def)

lemma foldl_seedStep_set:
  "set (fst (foldl (seedStep L g) sw xs)) =
     set (fst sw) \<union> {i \<in> set xs. \<not> isPHI g i \<and> \<not> mayReadOrWriteMemory (inst g i) \<and> allOperandsInvariant L g i}"
  "set (snd (foldl (seedStep L g) sw xs)) =
     set (snd sw) \<union> {i \<in> set xs. \<not> isPHI g i \<and> \<not> mayReadOrWriteMemory (inst g i) \<and> allOperandsInvariant L g i}"
  by (induction xs arbitrary: sw) (auto simp: seedStep_set)

lemma seed_set:
  "set (fst (seed L g)) = {i. eligible L g i \<and> allOperandsInvariant L g i}"
  "set (snd (seed L g)) = {i. eligible L g i \<and> allOperandsInvariant L g i}"
  by (auto simp: seed_def foldl_seedStep_set eligible_def contains_def)

lemma userStep_set:
  "set (fst (userStep L g sw u)) =
     set (fst sw) \<union> (if eligible L g u \<and> allOperandsSafe L g (fst sw) u then {u} else {})"
  by (auto simp: userStep_def set_insert_def eligible_def)

lemma userStep_snd:
  "snd (userStep L g sw u) =
     snd sw @ (if eligible L g u \<and> u \<notin> set (fst sw) \<and> allOperandsSafe L g (fst sw) u then [u] else [])"
  by (auto simp: userStep_def set_insert_def eligible_def)


lemma allOperandsSafe_mono:
  "allOperandsSafe L g s u \<Longrightarrow> set s \<subseteq> set s' \<Longrightarrow> allOperandsSafe L g s' u"
  by (auto simp: allOperandsSafe_iff)

lemma eligible_safe_closure:
  assumes "eligible L g u" "allOperandsSafe L g s u" "set s \<subseteq> invariantClosure L g"
  shows "u \<in> invariantClosure L g"
proof (rule invariantClosure.step)
  show "contains L g u" "\<not> isPHI g u" "\<not> mayReadOrWriteMemory (inst g u)"
    using assms(1) by (simp_all add: eligible_def)
next
  fix j
  assume "Inst j \<in> set (operands (inst g u))" "contains L g j"
  with assms(2) have "j \<in> set s"
    by (simp add: allOperandsSafe_iff)
  with assms(3) show "j \<in> invariantClosure L g" by blast
qed

lemma userStep_sound:
  "set (fst sw) \<subseteq> invariantClosure L g \<Longrightarrow> set (fst (userStep L g sw u)) \<subseteq> invariantClosure L g"
  by (auto simp: userStep_set intro: eligible_safe_closure)

lemma foldl_userStep_sound:
  "set (fst sw) \<subseteq> invariantClosure L g \<Longrightarrow>
   set (fst (foldl (userStep L g) sw us)) \<subseteq> invariantClosure L g"
proof (induction us arbitrary: sw)
  case Nil
  then show ?case by simp
next
  case (Cons u us)
  from Cons.prems have "set (fst (userStep L g sw u)) \<subseteq> invariantClosure L g"
    by (rule userStep_sound)
  then show ?case
    using Cons.IH [of "userStep L g sw u"] by simp
qed

lemma closure_sound:
  "set s \<subseteq> invariantClosure L g \<Longrightarrow> set (closure L g s w) \<subseteq> invariantClosure L g"
proof (induction L g s w rule: closure.induct)
  case (1 L g s)
  then show ?case by simp
next
  case (2 L g s v va)
  let ?sw = "foldl (userStep L g) (s, butlast (v # va)) (users g (last (v # va)))"
  from "2.prems" have "set (fst ?sw) \<subseteq> invariantClosure L g"
    by (intro foldl_userStep_sound) simp
  with "2.IH" [of ?sw] show ?case
    by (simp add: Let_def)
qed

lemma seed_sound: "set (fst (seed L g)) \<subseteq> invariantClosure L g"
  by (auto simp: seed_set eligible_def allOperandsInvariant_iff intro: invariantClosure.start)

lemma userStep_operandClosed:
  "operandClosed L g (fst sw) \<Longrightarrow> operandClosed L g (fst (userStep L g sw u))"
  unfolding operandClosed_iff userStep_set
  by (auto simp: allOperandsSafe_iff)

lemma foldl_userStep_operandClosed:
  "operandClosed L g (fst sw) \<Longrightarrow> operandClosed L g (fst (foldl (userStep L g) sw us))"
proof (induction us arbitrary: sw)
  case Nil
  then show ?case by simp
next
  case (Cons u us)
  from Cons.prems have "operandClosed L g (fst (userStep L g sw u))"
    by (rule userStep_operandClosed)
  then show ?case
    using Cons.IH [of "userStep L g sw u"] by simp
qed

lemma closure_operandClosed:
  "operandClosed L g s \<Longrightarrow> operandClosed L g (closure L g s w)"
proof (induction L g s w rule: closure.induct)
  case (1 L g s)
  then show ?case by simp
next
  case (2 L g s v va)
  let ?sw = "foldl (userStep L g) (s, butlast (v # va)) (users g (last (v # va)))"
  from "2.prems" have "operandClosed L g (fst ?sw)"
    by (intro foldl_userStep_operandClosed) simp
  with "2.IH" [of ?sw] show ?case
    by (simp add: Let_def)
qed

lemma seedStep_operandClosed:
  "operandClosed L g (fst sw) \<Longrightarrow> operandClosed L g (fst (seedStep L g sw i))"
  unfolding operandClosed_iff seedStep_set
  by (auto simp: allOperandsInvariant_iff)

lemma seed_operandClosed: "operandClosed L g (fst (seed L g))"
  unfolding operandClosed_iff seed_set
  by (auto simp: allOperandsInvariant_iff)

lemma foldl_userStep_mono:
  "set (fst sw) \<subseteq> set (fst (foldl (userStep L g) sw us))"
proof (induction us arbitrary: sw)
  case Nil
  show ?case by simp
next
  case (Cons u us)
  have "set (fst sw) \<subseteq> set (fst (userStep L g sw u))"
    by (auto simp: userStep_set)
  with Cons [of "userStep L g sw u"] show ?case by auto
qed

lemma foldl_userStep_worklist:
  "set (snd (foldl (userStep L g) sw us)) =
     set (snd sw) \<union> (set (fst (foldl (userStep L g) sw us)) - set (fst sw))"
proof (induction us arbitrary: sw)
  case Nil
  show ?case by simp
next
  case (Cons u us)
  let ?m = "userStep L g sw u"
  let ?r = "foldl (userStep L g) ?m us"
  have a: "set (snd ?m) = set (snd sw) \<union> (set (fst ?m) - set (fst sw))"
    by (simp add: userStep_set userStep_snd) blast
  have b: "set (fst sw) \<subseteq> set (fst ?m)"
    by (simp add: userStep_set)
  have c: "set (fst ?m) \<subseteq> set (fst ?r)"
    by (rule foldl_userStep_mono)
  have d: "set (snd ?r) = set (snd ?m) \<union> (set (fst ?r) - set (fst ?m))"
    by (rule Cons.IH)
  have "set (snd ?r) = set (snd sw) \<union> (set (fst ?r) - set (fst sw))"
    using a b c d by blast
  then show ?case by simp
qed

lemma userStep_adds:
  "eligible L g u \<Longrightarrow> allOperandsSafe L g (fst sw) u \<Longrightarrow> u \<in> set (fst (userStep L g sw u))"
  by (simp add: userStep_set)

lemma userStep_mono: "set (fst sw) \<subseteq> set (fst (userStep L g sw x))"
  by (simp add: userStep_set)

lemma foldl_userStep_adds:
  "u \<in> set us \<Longrightarrow> eligible L g u \<Longrightarrow> allOperandsSafe L g (fst sw) u \<Longrightarrow>
   u \<in> set (fst (foldl (userStep L g) sw us))"
proof (induction us arbitrary: sw)
  case Nil
  then show ?case by simp
next
  case (Cons x us)
  let ?m = "userStep L g sw x"
  show ?case
  proof (cases "u = x")
    case True
    have "u \<in> set (fst ?m)"
      unfolding True using Cons.prems(2,3) unfolding True by (rule userStep_adds)
    moreover have "set (fst ?m) \<subseteq> set (fst (foldl (userStep L g) ?m us))"
      by (rule foldl_userStep_mono)
    ultimately have "u \<in> set (fst (foldl (userStep L g) ?m us))"
      by (rule subsetD [rotated])
    then show ?thesis by simp
  next
    case False
    with Cons.prems(1) have "u \<in> set us" by simp
    moreover have "allOperandsSafe L g (fst ?m) u"
      using Cons.prems(3) userStep_mono by (rule allOperandsSafe_mono)
    ultimately have "u \<in> set (fst (foldl (userStep L g) ?m us))"
      using Cons.prems(2) by (intro Cons.IH)
    then show ?thesis by simp
  qed
qed


lemma seed_pending: "pending L g (fst (seed L g)) (snd (seed L g))"
  unfolding pending_def
proof (intro allI impI)
  fix u
  assume a: "eligible L g u \<and> u \<notin> set (fst (seed L g)) \<and> allOperandsSafe L g (fst (seed L g)) u"
  then have "\<not> allOperandsInvariant L g u"
    by (simp add: seed_set)
  then obtain j where j: "Inst j \<in> set (operands (inst g u))" "contains L g j"
    by (auto simp: allOperandsInvariant_iff)
  with a have "j \<in> set (fst (seed L g))"
    by (simp add: allOperandsSafe_iff)
  then have "j \<in> set (snd (seed L g))"
    by (simp add: seed_set)
  with j show "\<exists>j\<in>set (snd (seed L g)). Inst j \<in> set (operands (inst g u)) \<and> contains L g j"
    by blast
qed

lemma pending_step:
  assumes uc: "usersComplete L g"
    and pend: "pending L g s (v # va)"
  shows "pending L g (fst (foldl (userStep L g) (s, butlast (v # va)) (users g (last (v # va)))))
                     (snd (foldl (userStep L g) (s, butlast (v # va)) (users g (last (v # va)))))"
proof -
  let ?w = "v # va"
  let ?r = "foldl (userStep L g) (s, butlast ?w) (users g (last ?w))"
  have mono: "set s \<subseteq> set (fst ?r)"
    using foldl_userStep_mono [of "(s, butlast ?w)" L g "users g (last ?w)"] by simp
  have wl: "set (snd ?r) = set (butlast ?w) \<union> (set (fst ?r) - set s)"
    using foldl_userStep_worklist [of L g "(s, butlast ?w)" "users g (last ?w)"] by simp
  have split: "set ?w = set (butlast ?w) \<union> {last ?w}"
    by (metis append_butlast_last_id list.distinct(1) set_append list.set(1) list.set(2))
  show ?thesis
    unfolding pending_def
  proof (intro allI impI)
    fix u
    assume a: "eligible L g u \<and> u \<notin> set (fst ?r) \<and> allOperandsSafe L g (fst ?r) u"
    then have el: "eligible L g u" and notin: "u \<notin> set (fst ?r)"
      and safe: "allOperandsSafe L g (fst ?r) u" by simp_all
    show "\<exists>j\<in>set (snd ?r). Inst j \<in> set (operands (inst g u)) \<and> contains L g j"
    proof (cases "allOperandsSafe L g s u")
      case True
      from notin mono have "u \<notin> set s" by blast
      with pend el True obtain j where j: "j \<in> set ?w"
        "Inst j \<in> set (operands (inst g u))" "contains L g j"
        unfolding pending_def by blast
      have "j \<noteq> last ?w"
      proof
        assume "j = last ?w"
        with uc el j have "u \<in> set (users g (last ?w))"
          by (simp add: usersComplete_iff eligible_def)
        then have "u \<in> set (fst ?r)"
          using el True by (intro foldl_userStep_adds) simp_all
        with notin show False by simp
      qed
      with j(1) split have "j \<in> set (butlast ?w)" by blast
      with wl have "j \<in> set (snd ?r)" by blast
      with j show ?thesis by blast
    next
      case False
      then obtain j where j: "Inst j \<in> set (operands (inst g u))" "contains L g j" "j \<notin> set s"
        by (auto simp: allOperandsSafe_iff)
      with safe have "j \<in> set (fst ?r)"
        by (simp add: allOperandsSafe_iff)
      with j(3) wl have "j \<in> set (snd ?r)" by blast
      with j show ?thesis by blast
    qed
  qed
qed

lemma closure_pending:
  "usersComplete L g \<Longrightarrow> pending L g s w \<Longrightarrow> pending L g (closure L g s w) []"
proof (induction L g s w rule: closure.induct)
  case (1 L g s)
  then show ?case by simp
next
  case (2 L g s v va)
  let ?sw = "foldl (userStep L g) (s, butlast (v # va)) (users g (last (v # va)))"
  from "2.prems" have "pending L g (fst ?sw) (snd ?sw)"
    by (rule pending_step)
  with "2.IH" [of ?sw] "2.prems"(1) show ?case
    by (simp add: Let_def)
qed

lemma closure_complete:
  assumes "pending L g s []" "i \<in> invariantClosure L g"
  shows "i \<in> set s"
  using assms(2)
proof (induction rule: invariantClosure.induct)
  case (start i)
  then have "eligible L g i" "allOperandsSafe L g s i"
    by (auto simp: eligible_def allOperandsSafe_iff)
  with assms(1) show ?case
    unfolding pending_def by auto
next
  case (step u)
  then have "eligible L g u" "allOperandsSafe L g s u"
    by (auto simp: eligible_def allOperandsSafe_iff)
  with assms(1) show ?case
    unfolding pending_def by auto
qed



lemma insertBefore_last: "t \<notin> set pre \<Longrightarrow> insertBefore t i (pre @ [t]) = pre @ [i, t]"
  by (induction pre) auto

lemma getTerminator_Some:
  "getTerminator g b = Some t \<Longrightarrow> body g b = butlast (body g b) @ [t] \<and> isTerminator (inst g t)"
  by (auto simp: getTerminator_def split: if_splits)

lemma getParent_cong:
  assumes "\<And>b. b \<in> set (getBlocks L) \<Longrightarrow> (i \<in> set (body g' b)) = (i \<in> set (body g b))"
  shows "getParent L g' i = getParent L g i"
  unfolding getParent_def using assms by (intro find_cong) auto

lemma hoistable_moveBefore:
  assumes "ph \<notin> set (getBlocks L)" "j \<noteq> i"
  shows "hoistable dt L (moveBefore g i ph t) j = hoistable dt L g j"
proof -
  have "getParent L (moveBefore g i ph t) j = getParent L g j"
    using assms by (intro getParent_cong) (auto simp: moveBefore_def Let_def)
  then have "dominates dt L (moveBefore g i ph t) j = dominates dt L g j"
    by (simp add: dominates_def fun_eq_iff)
  moreover have "inst (moveBefore g i ph t) = inst g"
    by (simp add: moveBefore_def Let_def)
  ultimately show ?thesis
    by (simp add: hoistable_def dominatesAllLoopExits_def)
qed

lemma hoist_char:
  assumes "ph \<notin> set (getBlocks L)" "getTerminator g ph = Some t" "distinct (body g ph)"
    "distinct xs" "set xs \<inter> set (body g ph) = {}"
  shows "hoist dt L ph g xs = Inr (g\<lparr>body := hoistedBody g ph (filter (hoistable dt L g) xs)\<rparr>)"
  using assms
proof (induction xs arbitrary: g)
  case Nil
  have "hoistedBody g ph [] = body g"
    using getTerminator_Some [OF Nil(2)]
    by (auto simp: hoistedBody_def fun_eq_iff) (metis last_snoc)
  then show ?case by simp
next
  case (Cons i rest)
  from getTerminator_Some [OF Cons.prems(2)]
  obtain pre where bd: "body g ph = pre @ [t]" and tm: "isTerminator (inst g t)" by blast
  show ?case
  proof (cases "hoistable dt L g i")
    case False
    then have "hoist dt L ph g (i # rest) = hoist dt L ph g rest"
      by (auto simp: hoistable_def)
    also have "\<dots> = Inr (g\<lparr>body := hoistedBody g ph (filter (hoistable dt L g) rest)\<rparr>)"
      using Cons.prems by (intro Cons.IH) auto
    finally show ?thesis using False by simp
  next
    case True
    let ?g1 = "moveBefore g i ph t"
    have i_notin: "i \<notin> set pre" "i \<noteq> t" using Cons.prems(5) by (auto simp: bd)
    have t_notin: "t \<notin> set pre" and dpre: "distinct pre" using Cons.prems(3) by (auto simp: bd)
    have filt: "filter (\<lambda>x. x \<noteq> i) (pre @ [t]) = pre @ [t]"
      using i_notin by (auto simp: filter_id_conv)
    have body1: "body ?g1 ph = pre @ [i, t]"
      using insertBefore_last [OF t_notin, of i]
      by (simp add: moveBefore_def Let_def bd filt del: filter_append filter.simps)
    have body1': "\<And>b. b \<noteq> ph \<Longrightarrow> body ?g1 b = filter (\<lambda>x. x \<noteq> i) (body g b)"
      by (simp add: moveBefore_def Let_def)
    have inst1: "inst ?g1 = inst g" by (simp add: moveBefore_def Let_def)
    have term1: "getTerminator ?g1 ph = Some t"
      using tm by (simp add: getTerminator_def body1 inst1)
    have dist1: "distinct (body ?g1 ph)"
      using dpre i_notin t_notin unfolding body1 by auto
    have disj1: "set rest \<inter> set (body ?g1 ph) = {}"
      using Cons.prems(4,5) unfolding body1 by (auto simp: bd)
    have IH: "hoist dt L ph ?g1 rest = Inr (?g1\<lparr>body := hoistedBody ?g1 ph (filter (hoistable dt L ?g1) rest)\<rparr>)"
      using Cons.prems(1,4) term1 dist1 disj1 by (intro Cons.IH) auto
    have same: "filter (hoistable dt L ?g1) rest = filter (hoistable dt L g) rest"
    proof (rule filter_cong [OF refl])
      fix x assume "x \<in> set rest"
      with Cons.prems(4) have "x \<noteq> i" by auto
      with Cons.prems(1) show "hoistable dt L ?g1 x = hoistable dt L g x"
        by (rule hoistable_moveBefore)
    qed
    let ?hs = "filter (hoistable dt L g) rest"
    have hb: "hoistedBody ?g1 ph ?hs = hoistedBody g ph (i # ?hs)"
    proof
      fix b
      show "hoistedBody ?g1 ph ?hs b = hoistedBody g ph (i # ?hs) b"
      proof (cases "b = ph")
        case True
        then show ?thesis by (simp add: hoistedBody_def body1 bd butlast_append)
      next
        case False
        then show ?thesis by (simp add: hoistedBody_def body1' conj_commute)
      qed
    qed
    have upd: "?g1\<lparr>body := hoistedBody g ph (i # ?hs)\<rparr> = g\<lparr>body := hoistedBody g ph (i # ?hs)\<rparr>"
      by (simp add: moveBefore_def Let_def)
    have "hoist dt L ph g (i # rest) = hoist dt L ph ?g1 rest"
      using True Cons.prems(2) by (simp add: hoistable_def)
    also note IH
    finally show ?thesis
      using True by (simp add: same hb upd)
  qed
qed



lemma closure_members:
  "i \<in> invariantClosure L g \<Longrightarrow>
     contains L g i \<and> \<not> isPHI g i \<and> \<not> mayReadOrWriteMemory (inst g i)"
  by (induction rule: invariantClosure.induct) simp_all

lemma InvariantSet_sound: "set (InvariantSet L g) \<subseteq> invariantClosure L g"
  unfolding InvariantSet_def using seed_sound by (rule closure_sound)

lemma set_insertBefore: "set (insertBefore t i xs) \<subseteq> insert i (set xs) \<and> set xs \<subseteq> set (insertBefore t i xs)"
  by (induction xs) auto

lemma moveBefore_untouched:
  "j \<noteq> i \<Longrightarrow> (j \<in> set (body (moveBefore g i ph t) b)) = (j \<in> set (body g b))"
  using set_insertBefore [of t i "filter (\<lambda>x. x \<noteq> i) (body g ph)"]
  by (auto simp: moveBefore_def Let_def)

lemma hoist_untouched:
  "hoist dt L ph g xs = Inr g' \<Longrightarrow> j \<notin> set xs \<Longrightarrow>
     (j \<in> set (body g' b)) = (j \<in> set (body g b))"
proof (induction xs arbitrary: g)
  case Nil
  then show ?case by simp
next
  case (Cons i rest)
  show ?case
  proof (cases "isSafeToSpeculativelyExecute (inst g i) \<and> dominatesAllLoopExits dt g i L")
    case False
    with Cons.prems have "hoist dt L ph g rest = Inr g'" by auto
    with Cons.IH [of g] Cons.prems(2) show ?thesis by simp
  next
    case True
    with Cons.prems(1) obtain t where t: "getTerminator g ph = Some t"
      and h: "hoist dt L ph (moveBefore g i ph t) rest = Inr g'"
      by (auto split: option.splits)
    from Cons.prems(2) have "j \<noteq> i" "j \<notin> set rest" by auto
    with Cons.IH [OF h] moveBefore_untouched [of j i g ph t b] show ?thesis by simp
  qed
qed

lemma hoist_nothing:
  "\<forall>i\<in>set xs. \<not> hoistable dt L g i \<Longrightarrow> hoist dt L ph g xs = Inr g"
  by (induction xs) (auto simp: hoistable_def)

lemma InvariantSet_in_loop: "set (InvariantSet L g) \<subseteq> set (loopInstrs L g)"
  using InvariantSet_sound [of L g] closure_members [of _ L g]
  by (auto simp: contains_def)

lemma run_char:
  assumes "getLoopPreheader L = Some ph" "ph \<notin> set (getBlocks L)" "getTerminator g ph = Some t"
    "distinct (body g ph)" "set (body g ph) \<inter> set (loopInstrs L g) = {}"
    "distinct (iter (InvariantSet L g))"
    "set (iter (InvariantSet L g)) \<subseteq> set (InvariantSet L g)"
  shows "SimpleLICM_run iter dt L g =
     Inr (g\<lparr>body := hoistedBody g ph (filter (hoistable dt L g) (iter (InvariantSet L g)))\<rparr>,
          PreservedNone)"
proof -
  have "set (iter (InvariantSet L g)) \<inter> set (body g ph) = {}"
    using assms(5,7) InvariantSet_in_loop [of L g] by blast
  with assms have "hoist dt L ph g (iter (InvariantSet L g)) =
     Inr (g\<lparr>body := hoistedBody g ph (filter (hoistable dt L g) (iter (InvariantSet L g)))\<rparr>)"
    by (intro hoist_char)
  with assms(1) show ?thesis
    by (simp add: SimpleLICM_run_def)
qed

lemma run_nothing:
  assumes "getLoopPreheader L = Some ph" "\<forall>i\<in>set (iter (InvariantSet L g)). \<not> hoistable dt L g i"
  shows "SimpleLICM_run iter dt L g = Inr (g, PreservedNone)"
  using assms hoist_nothing [of "iter (InvariantSet L g)" dt L g ph]
  by (simp add: SimpleLICM_run_def)

lemma hoistedBody_preheader:
  "getTerminator g ph = Some t \<Longrightarrow> hoistedBody g ph hs ph = butlast (body g ph) @ hs @ [t]"
  by (auto simp: hoistedBody_def getTerminator_def split: if_splits)

text \<open>The run on the chain loop, evaluated.\<close>

lemma chain_hoist:
  "hoist chainDT chainL 2 chainG [11, 12, 13] =
     Inr (chainG\<lparr>body := hoistedBody chainG 2 [11, 12, 13]\<rparr>)"
proof -
  have "hoist chainDT chainL 2 chainG [11, 12, 13] =
      Inr (chainG\<lparr>body := hoistedBody chainG 2 (filter (hoistable chainDT chainL chainG) [11, 12, 13])\<rparr>)"
    by (rule hoist_char) (simp_all add: chainL_def chainG_def chainInst_def mkInstr_def getTerminator_def)
  moreover have "filter (hoistable chainDT chainL chainG) [11, 12, 13] = [11, 12, 13]"
    by code_simp
  ultimately show ?thesis by simp
qed

lemma chain_run:
  "\<exists>g'. SimpleLICM_run id chainDT chainL chainG = Inr (g', PreservedNone) \<and>
        body g' 2 = [11, 12, 13, 9]"
proof -
  have inv: "InvariantSet chainL chainG = [11, 12, 13]" by code_simp
  have pre: "getLoopPreheader chainL = Some 2" by (simp add: chainL_def)
  have h: "hoist chainDT chainL 2 chainG (InvariantSet chainL chainG) =
      Inr (chainG\<lparr>body := hoistedBody chainG 2 [11, 12, 13]\<rparr>)"
    by (simp only: inv chain_hoist)
  have "SimpleLICM_run id chainDT chainL chainG =
      Inr (chainG\<lparr>body := hoistedBody chainG 2 [11, 12, 13]\<rparr>, PreservedNone)"
    by (simp add: SimpleLICM_run_def pre h)
  moreover have "hoistedBody chainG 2 [11, 12, 13] 2 = [11, 12, 13, 9]"
    by (simp add: hoistedBody_def chainG_def)
  ultimately show ?thesis by simp
qed

text \<open>The run on the loop with the conditional block: nothing passes both checks.\<close>

lemma cond_run: "SimpleLICM_run id condDT condL condG = Inr (condG, PreservedNone)"
proof -
  have inv: "InvariantSet condL condG = [30, 31]" by code_simp
  have "\<not> hoistable condDT condL condG 30" "\<not> hoistable condDT condL condG 31"
    by code_simp+
  then have "\<forall>i\<in>set (id (InvariantSet condL condG)). \<not> hoistable condDT condL condG i"
    by (simp add: inv)
  moreover have "getLoopPreheader condL = Some 2" by (simp add: condL_def)
  ultimately show ?thesis by (intro run_nothing)
qed

section \<open>The claims about SimpleLICM\<close>

text \<open>
  Claim C5. When the worklist is empty the invariant set is exactly the closure, from
  the instructions of the loop with no operand defined in the loop, of "not a merge
  point, no memory access, every operand defined in the loop is in the set"; and at no
  moment does the set hold an instruction with an operand defined in the loop that is
  outside the set: that holds after the seeding scan, is kept by every step of the scan
  and of the worklist loop, and holds at the end. The use lists are assumed complete on
  the loop.
\<close>

theorem C5_invariant_set_is_closure:
  assumes "usersComplete L g"
  shows "set (InvariantSet L g) = invariantClosure L g \<and>
         operandClosed L g (InvariantSet L g) \<and>
         operandClosed L g (fst (seed L g)) \<and>
         (\<forall>sw u. operandClosed L g (fst sw) \<longrightarrow>
            operandClosed L g (fst (seedStep L g sw u)) \<and>
            operandClosed L g (fst (userStep L g sw u)))"
proof (intro conjI allI impI)
  show "set (InvariantSet L g) = invariantClosure L g"
  proof (intro equalityI subsetI)
    fix i assume "i \<in> set (InvariantSet L g)"
    then show "i \<in> invariantClosure L g"
      using InvariantSet_sound by blast
  next
    fix i assume "i \<in> invariantClosure L g"
    moreover have "pending L g (InvariantSet L g) []"
      unfolding InvariantSet_def using assms seed_pending by (rule closure_pending)
    ultimately show "i \<in> set (InvariantSet L g)"
      by (rule closure_complete [rotated])
  qed
next
  show "operandClosed L g (InvariantSet L g)"
    unfolding InvariantSet_def using seed_operandClosed by (rule closure_operandClosed)
next
  show "operandClosed L g (fst (seed L g))" by (rule seed_operandClosed)
next
  fix sw :: "instr_id list \<times> instr_id list" and u assume "operandClosed L g (fst sw)"
  then show "operandClosed L g (fst (seedStep L g sw u))" by (rule seedStep_operandClosed)
next
  fix sw :: "instr_id list \<times> instr_id list" and u assume "operandClosed L g (fst sw)"
  then show "operandClosed L g (fst (userStep L g sw u))" by (rule userStep_operandClosed)
qed

theorem C5_invariant_set_is_closure_witness:
  "usersComplete chainL chainG \<and> invariantClosure chainL chainG = {11, 12, 13} \<and>
   operandClosed chainL chainG [11, 12, 13]"
proof -
  have uc: "usersComplete chainL chainG" by code_simp
  have inv: "InvariantSet chainL chainG = [11, 12, 13]" by code_simp
  from C5_invariant_set_is_closure [OF uc] uc show ?thesis by (simp add: inv)
qed

text \<open>
  Claim C6. A merge point, or an instruction that may read or write memory, is never
  put into the invariant set (not by the seeding scan, not by a step of the worklist
  loop, so it is not in the final set) and the pass never moves it: after the run it is
  in exactly the blocks it was in before. The iterator of the set yields only elements
  of the set.
\<close>

theorem C6_phi_and_memory_never_hoisted:
  assumes "isPHI g i \<or> mayReadOrWriteMemory (inst g i)"
    and "set (iter (InvariantSet L g)) \<subseteq> set (InvariantSet L g)"
  shows "i \<notin> set (fst (seed L g)) \<and> i \<notin> set (InvariantSet L g) \<and>
         (\<forall>sw u. i \<notin> set (fst sw) \<longrightarrow> i \<notin> set (fst (userStep L g sw u))) \<and>
         (\<forall>g' p b. SimpleLICM_run iter dt L g = Inr (g', p) \<longrightarrow>
            (i \<in> set (body g' b)) = (i \<in> set (body g b)))"
proof (intro conjI allI impI)
  show "i \<notin> set (fst (seed L g))"
    using assms(1) by (auto simp: seed_set eligible_def)
next
  show notin: "i \<notin> set (InvariantSet L g)"
    using assms(1) InvariantSet_sound [of L g] closure_members [of i L g] by blast
next
  fix sw :: "instr_id list \<times> instr_id list" and u assume "i \<notin> set (fst sw)"
  then show "i \<notin> set (fst (userStep L g sw u))"
    using assms(1) by (auto simp: userStep_set eligible_def)
next
  fix g' p b
  assume run: "SimpleLICM_run iter dt L g = Inr (g', p)"
  have notin: "i \<notin> set (iter (InvariantSet L g))"
    using assms InvariantSet_sound [of L g] closure_members [of i L g] by blast
  show "(i \<in> set (body g' b)) = (i \<in> set (body g b))"
  proof (cases "getLoopPreheader L")
    case None
    with run show ?thesis by (simp add: SimpleLICM_run_def)
  next
    case (Some ph)
    with run have "hoist dt L ph g (iter (InvariantSet L g)) = Inr g'"
      by (auto simp: SimpleLICM_run_def split: sum.splits)
    then show ?thesis using notin by (rule hoist_untouched)
  qed
qed

theorem C6_phi_and_memory_never_hoisted_witness:
  "isPHI chainG 10 \<and> mayReadOrWriteMemory (inst chainG 15) \<and>
   10 \<notin> set (InvariantSet chainL chainG) \<and> 15 \<notin> set (InvariantSet chainL chainG) \<and>
   (\<exists>g'. SimpleLICM_run id chainDT chainL chainG = Inr (g', PreservedNone) \<and>
      body g' 2 = [11, 12, 13, 9] \<and>
      10 \<in> set (body g' 3) \<and> 10 \<notin> set (body g' 2) \<and>
      15 \<in> set (body g' 3) \<and> 15 \<notin> set (body g' 2))"
proof -
  have phi: "isPHI chainG 10" by code_simp
  have mem: "mayReadOrWriteMemory (inst chainG 15)" by code_simp
  have sub: "set (id (InvariantSet chainL chainG)) \<subseteq> set (InvariantSet chainL chainG)" by simp
  obtain g' where run: "SimpleLICM_run id chainDT chainL chainG = Inr (g', PreservedNone)"
    and ph: "body g' 2 = [11, 12, 13, 9]"
    using chain_run by blast
  have b3: "body chainG 3 = [10, 11, 12, 13, 14, 15, 16]"
    by (simp add: chainG_def)
  from C6_phi_and_memory_never_hoisted [of chainG 10 id chainL chainDT, OF disjI1 [OF phi] sub]
  have "10 \<notin> set (InvariantSet chainL chainG)"
    and "(10 \<in> set (body g' 3)) = (10 \<in> set (body chainG 3))"
    using run by blast+
  moreover
  from C6_phi_and_memory_never_hoisted [of chainG 15 id chainL chainDT, OF disjI2 [OF mem] sub]
  have "15 \<notin> set (InvariantSet chainL chainG)"
    and "(15 \<in> set (body g' 3)) = (15 \<in> set (body chainG 3))"
    using run by blast+
  ultimately show ?thesis
    using phi mem run ph by (simp add: b3)
qed

text \<open>
  Claim C4, as the code has it. The preheader is outside the loop, ends in its
  terminator and shares no instruction with the loop, and the iterator yields every
  element of the set once. Then the run moves an instruction of the invariant set in
  front of the preheader's terminator if and only if it is safe to execute
  speculatively and the block that holds it before the move dominates every exit block
  (\<open>hoistable\<close>, evaluated on the graph before the run); the moved instructions
  stand between the old instructions of the preheader and its terminator in the order
  of the iteration; every other instruction keeps its block and its place among the
  instructions that stay.
\<close>

theorem C4_hoisted_iff_safe_and_block_dominates_exits:
  assumes "getLoopPreheader L = Some ph" "ph \<notin> set (getBlocks L)" "getTerminator g ph = Some t"
    "distinct (body g ph)" "set (body g ph) \<inter> set (loopInstrs L g) = {}"
    "distinct (iter (InvariantSet L g))"
    "set (iter (InvariantSet L g)) = set (InvariantSet L g)"
  shows "\<exists>g'. SimpleLICM_run iter dt L g = Inr (g', PreservedNone) \<and>
           inst g' = inst g \<and>
           body g' ph = butlast (body g ph) @ filter (hoistable dt L g) (iter (InvariantSet L g)) @ [t] \<and>
           (\<forall>b. b \<noteq> ph \<longrightarrow>
              body g' b = filter (\<lambda>x. \<not> (x \<in> set (InvariantSet L g) \<and> hoistable dt L g x)) (body g b)) \<and>
           (\<forall>i\<in>set (InvariantSet L g).
              (i \<in> set (body g' ph)) =
                (isSafeToSpeculativelyExecute (inst g i) \<and> dominatesAllLoopExits dt g i L) \<and>
              (\<not> hoistable dt L g i \<longrightarrow> (\<forall>b. (i \<in> set (body g' b)) = (i \<in> set (body g b)))))"
proof -
  let ?hs = "filter (hoistable dt L g) (iter (InvariantSet L g))"
  let ?g' = "g\<lparr>body := hoistedBody g ph ?hs\<rparr>"
  have run: "SimpleLICM_run iter dt L g = Inr (?g', PreservedNone)"
    using assms by (intro run_char) auto
  have hs: "set ?hs = {x \<in> set (InvariantSet L g). hoistable dt L g x}"
    using assms(7) by auto
  have ph: "body ?g' ph = butlast (body g ph) @ ?hs @ [t]"
    using hoistedBody_preheader [OF assms(3)] by simp
  have other: "\<And>b. b \<noteq> ph \<Longrightarrow>
      body ?g' b = filter (\<lambda>x. \<not> (x \<in> set (InvariantSet L g) \<and> hoistable dt L g x)) (body g b)"
    by (simp add: hoistedBody_def assms(7))
  have old: "body g ph = butlast (body g ph) @ [t]"
    using assms(3) by (auto simp: getTerminator_def split: if_splits)
  have notin: "\<And>i. i \<in> set (InvariantSet L g) \<Longrightarrow> i \<notin> set (body g ph)"
    using assms(5) InvariantSet_in_loop [of L g] by blast
  have mem: "\<And>i. i \<in> set (InvariantSet L g) \<Longrightarrow>
      (i \<in> set (body ?g' ph)) = hoistable dt L g i"
  proof -
    fix i assume i: "i \<in> set (InvariantSet L g)"
    from notin [OF i] old have "i \<notin> set (butlast (body g ph))" "i \<noteq> t"
      by (metis Un_iff set_append, metis in_set_conv_decomp)
    then show "(i \<in> set (body ?g' ph)) = hoistable dt L g i"
      unfolding ph using i by (simp add: assms(7))
  qed
  have stay: "\<And>i b. i \<in> set (InvariantSet L g) \<Longrightarrow> \<not> hoistable dt L g i \<Longrightarrow>
      (i \<in> set (body ?g' b)) = (i \<in> set (body g b))"
  proof -
    fix i b assume i: "i \<in> set (InvariantSet L g)" and n: "\<not> hoistable dt L g i"
    show "(i \<in> set (body ?g' b)) = (i \<in> set (body g b))"
    proof (cases "b = ph")
      case True
      with mem [OF i] n notin [OF i] show ?thesis by simp
    next
      case False
      with other [OF False] n show ?thesis by simp
    qed
  qed
  show ?thesis
  proof (intro exI [of _ ?g'] conjI ballI allI impI)
    show "SimpleLICM_run iter dt L g = Inr (?g', PreservedNone)" by (rule run)
    show "inst ?g' = inst g" by simp
    show "body ?g' ph = butlast (body g ph) @ ?hs @ [t]" by (rule ph)
  next
    fix b assume "b \<noteq> ph"
    then show "body ?g' b = filter (\<lambda>x. \<not> (x \<in> set (InvariantSet L g) \<and> hoistable dt L g x)) (body g b)"
      by (rule other)
  next
    fix i assume "i \<in> set (InvariantSet L g)"
    then show "(i \<in> set (body ?g' ph)) =
        (isSafeToSpeculativelyExecute (inst g i) \<and> dominatesAllLoopExits dt g i L)"
      using mem by (simp add: hoistable_def)
  next
    fix i b assume "i \<in> set (InvariantSet L g)" "\<not> hoistable dt L g i"
    then show "(i \<in> set (body ?g' b)) = (i \<in> set (body g b))" by (rule stay)
  qed
qed

theorem C4_hoisted_iff_safe_and_block_dominates_exits_witness:
  "\<exists>g'. SimpleLICM_run id chainDT chainL chainG = Inr (g', PreservedNone) \<and>
        body g' 2 = [11, 12, 13, 9] \<and> body g' 3 = [10, 14, 15, 16] \<and> body g' 4 = [20]"
proof -
  have inv: "InvariantSet chainL chainG = [11, 12, 13]" by code_simp
  have h1: "getLoopPreheader chainL = Some 2" "2 \<notin> set (getBlocks chainL)"
    by (simp_all add: chainL_def)
  have h2: "getTerminator chainG 2 = Some 9" by code_simp
  have h3: "distinct (body chainG 2)" "set (body chainG 2) \<inter> set (loopInstrs chainL chainG) = {}"
    by (simp_all add: chainG_def chainL_def loopInstrs_def)
  have h4: "distinct (id (InvariantSet chainL chainG))"
    "set (id (InvariantSet chainL chainG)) = set (InvariantSet chainL chainG)"
    by (simp_all add: inv)
  have f: "filter (hoistable chainDT chainL chainG) [11, 12, 13] = [11, 12, 13]" by code_simp
  have f3: "filter (\<lambda>x. x \<in> set [11, 12, 13] \<longrightarrow> \<not> hoistable chainDT chainL chainG x)
              [10, 11, 12, 13, 14, 15, 16] = [10, 14, 15, 16]" by code_simp
  have b: "body chainG 2 = [9]" "body chainG 3 = [10, 11, 12, 13, 14, 15, 16]" "body chainG 4 = [20]"
    by (simp_all add: chainG_def)
  from C4_hoisted_iff_safe_and_block_dominates_exits [where iter = id and dt = chainDT, OF h1 h2 h3 h4]
  obtain g' where run: "SimpleLICM_run id chainDT chainL chainG = Inr (g', PreservedNone)"
    and ph: "body g' 2 = butlast (body chainG 2) @ filter (hoistable chainDT chainL chainG) (id (InvariantSet chainL chainG)) @ [9]"
    and other: "\<forall>b. b \<noteq> 2 \<longrightarrow> body g' b =
        filter (\<lambda>x. \<not> (x \<in> set (InvariantSet chainL chainG) \<and> hoistable chainDT chainL chainG x)) (body chainG b)"
    by blast
  from ph have "body g' 2 = [11, 12, 13, 9]"
    by (simp add: inv f b del: filter.simps)
  moreover from other have "body g' 3 = [10, 14, 15, 16]"
    by (simp add: inv b f3 del: filter.simps set_simps)
  moreover from other have "body g' 4 = [20]"
    by (simp add: inv b)
  ultimately show ?thesis using run by blast
qed

text \<open>
  Claim C4 as it is stated fails. In the loop with the conditional block, instruction
  \<open>30\<close> is in the invariant set and safe to execute speculatively, and the
  preheader (block 2), where it would be defined after the move, dominates the only
  exit block; the run leaves it in block 4, because block 4 does not dominate the
  exit, and changes nothing.
\<close>

theorem C4_counterexample:
  "30 \<in> set (InvariantSet condL condG) \<and>
   isSafeToSpeculativelyExecute (inst condG 30) \<and>
   getLoopPreheader condL = Some 2 \<and>
   list_all (condDT 2) (getExitBlocks condL) \<and>
   SimpleLICM_run id condDT condL condG = Inr (condG, PreservedNone) \<and>
   body condG 4 = [30, 31] \<and> body condG 2 = [9]"
proof -
  have "30 \<in> set (InvariantSet condL condG)" by code_simp
  moreover have "isSafeToSpeculativelyExecute (inst condG 30)" by code_simp
  moreover have "getLoopPreheader condL = Some 2" by (simp add: condL_def)
  moreover have "list_all (condDT 2) (getExitBlocks condL)" by code_simp
  moreover have "body condG 4 = [30, 31]" "body condG 2 = [9]" by (simp_all add: condG_def)
  ultimately show ?thesis using cond_run by simp
qed

text \<open>
  Claim C10. Without a preheader the run returns the graph as it was and "all
  preserved". With a preheader every result of the run is "none preserved", also when
  no instruction of the set passes the two checks and the graph is returned unchanged;
  and the run does return when the preheader is outside the loop, ends in its
  terminator and shares no instruction with the loop.
\<close>

theorem C10_change_reported_iff_preheader:
  "(getLoopPreheader L = None \<longrightarrow> SimpleLICM_run iter dt L g = Inr (g, PreservedAll)) \<and>
   (\<forall>ph. getLoopPreheader L = Some ph \<longrightarrow>
      (\<forall>g' p. SimpleLICM_run iter dt L g = Inr (g', p) \<longrightarrow> p = PreservedNone) \<and>
      ((\<forall>i\<in>set (iter (InvariantSet L g)). \<not> hoistable dt L g i) \<longrightarrow>
         SimpleLICM_run iter dt L g = Inr (g, PreservedNone)) \<and>
      (\<forall>t. ph \<notin> set (getBlocks L) \<and> getTerminator g ph = Some t \<and> distinct (body g ph) \<and>
           set (body g ph) \<inter> set (loopInstrs L g) = {} \<and>
           distinct (iter (InvariantSet L g)) \<and>
           set (iter (InvariantSet L g)) \<subseteq> set (InvariantSet L g) \<longrightarrow>
         (\<exists>g'. SimpleLICM_run iter dt L g = Inr (g', PreservedNone))))"
proof (intro conjI allI impI)
  assume "getLoopPreheader L = None"
  then show "SimpleLICM_run iter dt L g = Inr (g, PreservedAll)"
    by (simp add: SimpleLICM_run_def)
next
  fix ph g' p
  assume "getLoopPreheader L = Some ph" "SimpleLICM_run iter dt L g = Inr (g', p)"
  then show "p = PreservedNone"
    by (auto simp: SimpleLICM_run_def split: sum.splits)
next
  fix ph
  assume "getLoopPreheader L = Some ph" "\<forall>i\<in>set (iter (InvariantSet L g)). \<not> hoistable dt L g i"
  then show "SimpleLICM_run iter dt L g = Inr (g, PreservedNone)"
    by (rule run_nothing)
next
  fix ph t
  assume "getLoopPreheader L = Some ph"
    and "ph \<notin> set (getBlocks L) \<and> getTerminator g ph = Some t \<and> distinct (body g ph) \<and>
           set (body g ph) \<inter> set (loopInstrs L g) = {} \<and>
           distinct (iter (InvariantSet L g)) \<and>
           set (iter (InvariantSet L g)) \<subseteq> set (InvariantSet L g)"
  then show "\<exists>g'. SimpleLICM_run iter dt L g = Inr (g', PreservedNone)"
    using run_char [of L ph g t iter dt] by blast
qed

theorem C10_change_reported_iff_preheader_witness:
  "SimpleLICM_run id chainDT noPreheaderL chainG = Inr (chainG, PreservedAll) \<and>
   InvariantSet condL condG = [30, 31] \<and>
   SimpleLICM_run id condDT condL condG = Inr (condG, PreservedNone)"
proof -
  have inv: "InvariantSet condL condG = [30, 31]" by code_simp
  have "\<not> hoistable condDT condL condG 30" "\<not> hoistable condDT condL condG 31"
    by code_simp+
  then have none: "\<forall>i\<in>set (id (InvariantSet condL condG)). \<not> hoistable condDT condL condG i"
    by (simp add: inv)
  have pre: "getLoopPreheader condL = Some 2" by (simp add: condL_def)
  have nopre: "getLoopPreheader noPreheaderL = None" by (simp add: noPreheaderL_def)
  from C10_change_reported_iff_preheader [of noPreheaderL id chainDT chainG] nopre
  have "SimpleLICM_run id chainDT noPreheaderL chainG = Inr (chainG, PreservedAll)" by blast
  moreover
  from C10_change_reported_iff_preheader [of condL id condDT condG] pre none
  have "SimpleLICM_run id condDT condL condG = Inr (condG, PreservedNone)" by blast
  ultimately show ?thesis using inv by simp
qed

text \<open>
  Claim C1 does not hold of the code. In the chain loop with \<open>11\<close> a division, all of
  \<open>11\<close>, \<open>12\<close>, \<open>13\<close> are in the invariant set; \<open>11\<close> fails the speculation check
  and stays in the loop, while \<open>12\<close>, which has \<open>11\<close> as an operand, is moved to the
  preheader, in front of the loop that defines \<open>11\<close>. And on the chain loop itself,
  when the iterator yields the set in the reverse of the insertion order, all three are
  moved and each stands in front of its own operand.
\<close>

theorem C1_hoisting_puts_use_before_definition:
  "(\<exists>g'. SimpleLICM_run id chainDT chainL udivG = Inr (g', PreservedNone) \<and>
      body g' 2 = [12, 13, 9] \<and> body g' 3 = [10, 11, 14, 15, 16] \<and>
      operands (inst g' 12) = [Inst 11, OtherVal (IntegerTy 32) 0]) \<and>
   (\<exists>g'. SimpleLICM_run rev chainDT chainL chainG = Inr (g', PreservedNone) \<and>
      body g' 2 = [13, 12, 11, 9] \<and>
      operands (inst g' 13) = [Inst 12, ConstantInt 32 2] \<and>
      operands (inst g' 12) = [Inst 11, OtherVal (IntegerTy 32) 0])"
proof -
  have h1: "getLoopPreheader chainL = Some 2" "2 \<notin> set (getBlocks chainL)"
    by (simp_all add: chainL_def)
  have inv_u: "InvariantSet chainL udivG = [11, 12, 13]" by code_simp
  have inv_c: "InvariantSet chainL chainG = [11, 12, 13]" by code_simp
  have t_u: "getTerminator udivG 2 = Some 9" by code_simp
  have t_c: "getTerminator chainG 2 = Some 9" by code_simp
  have f_u: "filter (hoistable chainDT chainL udivG) [11, 12, 13] = [12, 13]" by code_simp
  have f_c: "filter (hoistable chainDT chainL chainG) [13, 12, 11] = [13, 12, 11]" by code_simp
  have "SimpleLICM_run id chainDT chainL udivG =
      Inr (udivG\<lparr>body := hoistedBody udivG 2
             (filter (hoistable chainDT chainL udivG) (id (InvariantSet chainL udivG)))\<rparr>, PreservedNone)"
    using h1 t_u
    by (rule run_char) (simp_all add: inv_u, simp_all add: udivG_def chainG_def chainL_def loopInstrs_def)
  then have r_u: "SimpleLICM_run id chainDT chainL udivG =
      Inr (udivG\<lparr>body := hoistedBody udivG 2 [12, 13]\<rparr>, PreservedNone)"
    by (simp only: id_apply inv_u f_u)
  have "SimpleLICM_run rev chainDT chainL chainG =
      Inr (chainG\<lparr>body := hoistedBody chainG 2
             (filter (hoistable chainDT chainL chainG) (rev (InvariantSet chainL chainG)))\<rparr>, PreservedNone)"
    using h1 t_c
    by (rule run_char) (simp_all add: inv_c, simp_all add: chainG_def chainL_def loopInstrs_def)
  then have r_c: "SimpleLICM_run rev chainDT chainL chainG =
      Inr (chainG\<lparr>body := hoistedBody chainG 2 [13, 12, 11]\<rparr>, PreservedNone)"
    by (simp add: inv_c f_c del: filter.simps)
  have "hoistedBody udivG 2 [12, 13] 2 = [12, 13, 9]"
    "hoistedBody udivG 2 [12, 13] 3 = [10, 11, 14, 15, 16]"
    "operands (inst udivG 12) = [Inst 11, OtherVal (IntegerTy 32) 0]"
    "hoistedBody chainG 2 [13, 12, 11] 2 = [13, 12, 11, 9]"
    "operands (inst chainG 13) = [Inst 12, ConstantInt 32 2]"
    "operands (inst chainG 12) = [Inst 11, OtherVal (IntegerTy 32) 0]"
    by (simp_all add: hoistedBody_def udivG_def udivInst_def chainG_def chainInst_def mkInstr_def)
  with r_u r_c show ?thesis by simp
qed
section \<open>Properties of DerivedInductionVars\<close>


lemma foldl_fixed:
  "(\<And>x. x \<in> set xs \<Longrightarrow> f s x = s) \<Longrightarrow> foldl f s xs = s"
  by (induction xs) simp_all

lemma rewriteLoop_quiet:
  assumes "quiet A g L" "getHeader L = Some h"
  shows "rewriteLoop A L h hi g = (g, False)"
proof -
  have "scanHeader A L h hi g = (g, [], False)"
    unfolding scanHeader_def using assms
    by (intro foldl_fixed) (simp add: quiet_def)
  then show ?thesis by (simp add: rewriteLoop_def)
qed

lemma loopsOf_self: "L \<in> set (loopsOf L)"
  by (cases L) simp

lemma loopsOf_sub: "S \<in> set (getSubLoops L) \<Longrightarrow> set (loopsOf S) \<subseteq> set (loopsOf L)"
  by (cases L) auto

lemma analyze_quiet:
  "(\<forall>L'\<in>set (loopsOf L). quiet A g L') \<Longrightarrow> analyzeLoopRecursively A L g = (False, g)"
  "(\<forall>S\<in>set subs. \<forall>L'\<in>set (loopsOf S). quiet A g L') \<Longrightarrow> analyzeSubLoops A subs g = g"
proof (induction A L g and A subs g rule: analyzeLoopRecursively_analyzeSubLoops.induct)
  case (1 A n header bs ph ex subs g)
  let ?L = "Loop n header bs ph ex subs"
  show ?case
  proof (cases header)
    case None
    then show ?thesis by simp
  next
    case (Some h)
    show ?thesis
    proof (cases "getFirstNonPHI g h")
      case None
      with Some show ?thesis by simp
    next
      case (Some hi)
      have q: "quiet A g ?L" using "1.prems" by simp
      have rw: "rewriteLoop A ?L h hi g = (g, False)"
        using q by (rule rewriteLoop_quiet) (simp add: \<open>header = Some h\<close>)
      have "\<forall>S\<in>set subs. \<forall>L'\<in>set (loopsOf S). quiet A g L'"
        using "1.prems" by auto
      then have "analyzeSubLoops A subs g = g"
        by (rule "1.IH" [OF \<open>header = Some h\<close> Some rw [symmetric]])
      then show ?thesis
        using \<open>header = Some h\<close> Some rw by simp
    qed
  qed
next
  case (2 A g)
  show ?case by simp
next
  case (3 A S rest g)
  have a: "analyzeLoopRecursively A S g = (False, g)"
    using "3.prems" by (intro "3.IH"(1)) simp
  have "analyzeSubLoops A rest (snd (analyzeLoopRecursively A S g)) = snd (analyzeLoopRecursively A S g)"
    using "3.prems" a by (intro "3.IH"(2)) simp_all
  with a show ?case by simp
qed

lemma run_quiet:
  assumes "\<forall>L\<in>set LI. \<forall>L'\<in>set (loopsOf L). quiet A g L'"
  shows "DerivedInductionVars_run A LI g = (g, PreservedAll)"
proof -
  have "foldl (runStep A) (False, g) LI = (False, g)"
    using assms by (intro foldl_fixed) (simp add: runStep_def analyze_quiet(1))
  then show ?thesis by (simp add: DerivedInductionVars_run_def)
qed

lemma simplified_quiet: "simplifiedLoop A g L \<Longrightarrow> quiet A g L"
  unfolding quiet_def simplifiedLoop_def
  by (auto simp: processPHI_def list_all_iff affineRecurrenceOf_def split: ty.splits scev.splits option.splits)

lemma iv_first_run:
  "snd (DerivedInductionVars_run ivA [ivL] ivG) = PreservedNone"
  "simplifiedLoop ivA (fst (DerivedInductionVars_run ivA [ivL] ivG)) ivL"
  "body (fst (DerivedInductionVars_run ivA [ivL] ivG)) 3 = [10, 41, 42, 12, 14, 15, 16]"
  by code_simp+

lemma addUses_other:
  "Inst p \<notin> set ops \<Longrightarrow> addUses i ops us p = us p"
  unfolding addUses_def
  by (induction ops arbitrary: us) (auto split: val.splits)

lemma insertInstr_noRef:
  assumes "noRef g p" "Inst p \<notin> set (operands new)"
  shows "noRef (insertInstr g ip new) p"
  using assms by (auto simp: noRef_def insertInstr_def addUses_other)

lemma insertInstr_fresh: "fresh (insertInstr g ip new) = Suc (fresh g)"
  by (simp add: insertInstr_def)

lemma set_insertBefore_sup: "set xs \<subseteq> set (insertBefore t i xs)"
  by (induction xs) auto

lemma insertInstr_body: "set (body g b) \<subseteq> set (body (insertInstr g ip new) b)"
  by (simp add: insertInstr_def set_insertBefore_sup)

lemma CreateBinOp_noRef:
  assumes "noRef g p" "lhs \<noteq> Inst p" "rhs \<noteq> Inst p"
  shows "noRef (fst (CreateBinOp oc g ip lhs rhs)) p"
  using assms by (auto simp: CreateBinOp_def intro!: insertInstr_noRef)

lemma replaceAllUsesWith_noRef_old:
  assumes "new \<noteq> Inst pn"
  shows "noRef (replaceAllUsesWith g pn new) pn"
  using assms by (auto simp: noRef_def replaceAllUsesWith_def split: val.splits)

lemma replaceAllUsesWith_noRef_other:
  assumes "noRef g p" "new \<noteq> Inst p"
  shows "noRef (replaceAllUsesWith g pn new) p"
  using assms by (auto simp: noRef_def replaceAllUsesWith_def split: val.splits)

lemma eraseFromParent_noRef: "noRef g p \<Longrightarrow> noRef (eraseFromParent g d) p"
  by (auto simp: noRef_def eraseFromParent_def)

lemma rewritePHI_noRef:
  assumes "pn < fresh g" "startVal \<noteq> Inst pn" "stepVal \<noteq> Inst pn" "basicIV \<noteq> pn"
  shows "noRef (rewritePHI g hi basicIV startVal stepVal pn) pn"
  unfolding rewritePHI_def CreateBinOp_def Let_def split_def
  using assms by (intro replaceAllUsesWith_noRef_old) (simp add: insertInstr_fresh)

lemma rewritePHI_noRef_other:
  assumes "noRef g p" "p < fresh g" "startVal \<noteq> Inst p" "stepVal \<noteq> Inst p" "basicIV \<noteq> p"
  shows "noRef (rewritePHI g hi basicIV startVal stepVal pn) p"
proof -
  let ?g1 = "fst (CreateBinOp Mul g hi (Inst basicIV) stepVal)"
  let ?mul = "snd (CreateBinOp Mul g hi (Inst basicIV) stepVal)"
  let ?g2 = "fst (CreateBinOp Add ?g1 hi startVal ?mul)"
  let ?new = "snd (CreateBinOp Add ?g1 hi startVal ?mul)"
  have mul: "?mul = Inst (fresh g)" by (simp add: CreateBinOp_def)
  have new: "?new = Inst (Suc (fresh g))" by (simp add: CreateBinOp_def insertInstr_fresh)
  have "noRef ?g1 p" using assms by (intro CreateBinOp_noRef) auto
  then have "noRef ?g2 p" using assms mul by (intro CreateBinOp_noRef) auto
  then have "noRef (replaceAllUsesWith ?g2 pn ?new) p"
    using assms(2) new by (intro replaceAllUsesWith_noRef_other) auto
  then show ?thesis by (simp add: rewritePHI_def split_def Let_def)
qed

lemma rewritePHI_fresh: "fresh (rewritePHI g hi basicIV startVal stepVal pn) = Suc (Suc (fresh g))"
  by (simp add: rewritePHI_def CreateBinOp_def split_def Let_def insertInstr_fresh replaceAllUsesWith_def)

lemma rewritePHI_body: "set (body g b) \<subseteq> set (body (rewritePHI g hi basicIV startVal stepVal pn) b)"
proof -
  let ?g1 = "fst (CreateBinOp Mul g hi (Inst basicIV) stepVal)"
  let ?mul = "snd (CreateBinOp Mul g hi (Inst basicIV) stepVal)"
  let ?g2 = "fst (CreateBinOp Add ?g1 hi startVal ?mul)"
  have "set (body g b) \<subseteq> set (body ?g1 b)" by (simp add: CreateBinOp_def insertInstr_body)
  moreover have "set (body ?g1 b) \<subseteq> set (body ?g2 b)" by (simp add: CreateBinOp_def insertInstr_body)
  ultimately show ?thesis
    by (auto simp: rewritePHI_def split_def Let_def replaceAllUsesWith_def)
qed

lemma foldl_insertInstr_noRef:
  assumes "noRef g p" "\<forall>n\<in>set new. Inst p \<notin> set (operands n)"
  shows "noRef (foldl (\<lambda>g' n. insertInstr g' ip n) g new) p"
  using assms
proof (induction new arbitrary: g)
  case Nil
  then show ?case by simp
next
  case (Cons n new)
  then have "noRef (insertInstr g ip n) p" by (intro insertInstr_noRef) auto
  with Cons show ?case by simp
qed

lemma foldl_insertInstr_fresh:
  "fresh (foldl (\<lambda>g' n. insertInstr g' ip n) g new) = fresh g + length new"
  by (induction new arbitrary: g) (simp_all add: insertInstr_fresh)

lemma foldl_insertInstr_body:
  "set (body g b) \<subseteq> set (body (foldl (\<lambda>g' n. insertInstr g' ip n) g new) b)"
proof (induction new arbitrary: g)
  case Nil
  show ?case by simp
next
  case (Cons n new)
  have "set (body g b) \<subseteq> set (body (insertInstr g ip n) b)" by (rule insertInstr_body)
  with Cons [of "insertInstr g ip n"] show ?case by auto
qed

text \<open>What materialising a start or a step keeps.\<close>

lemma materialize_props:
  assumes ex: "expanderAvoids A ps" and fr: "\<forall>p\<in>set ps. p < fresh g"
    and kn: "\<forall>c. known = Some c \<longrightarrow> (\<exists>w k. c = ConstantInt w k)"
    and m: "materialize A g s t ip known = (g1, r)"
  shows "fresh g \<le> fresh g1"
    and "\<forall>p\<in>set ps. noRef g p \<longrightarrow> noRef g1 p"
    and "\<forall>b. set (body g b) \<subseteq> set (body g1 b)"
    and "\<forall>v. r = Some v \<longrightarrow> (\<forall>p\<in>set ps. v \<noteq> Inst p) \<and> (\<forall>i. v = Inst i \<longrightarrow> i < fresh g1)"
proof -
  show "fresh g \<le> fresh g1"
    using m by (auto simp: materialize_def foldl_insertInstr_fresh split: option.splits)
  show "\<forall>p\<in>set ps. noRef g p \<longrightarrow> noRef g1 p"
  proof (cases known)
    case (Some c)
    with m show ?thesis by (simp add: materialize_def)
  next
    case None
    show ?thesis
    proof (cases "expandCodeFor A g s t")
      case None
      with \<open>known = None\<close> m show ?thesis by (simp add: materialize_def)
    next
      case (Some nv)
      obtain new v where nv: "nv = (new, v)" by (cases nv)
      from ex fr Some nv have "\<forall>p\<in>set ps. \<forall>n\<in>set new. Inst p \<notin> set (operands n)"
        unfolding expanderAvoids_def by blast
      moreover from m \<open>known = None\<close> Some nv
      have "g1 = foldl (\<lambda>g' n. insertInstr g' ip n) g new" by (simp add: materialize_def)
      ultimately show ?thesis by (auto intro: foldl_insertInstr_noRef)
    qed
  qed
  show "\<forall>b. set (body g b) \<subseteq> set (body g1 b)"
    using m foldl_insertInstr_body [of g _ ip]
    by (auto simp: materialize_def split: option.splits)
  show "\<forall>v. r = Some v \<longrightarrow> (\<forall>p\<in>set ps. v \<noteq> Inst p) \<and> (\<forall>i. v = Inst i \<longrightarrow> i < fresh g1)"
  proof (cases known)
    case (Some c)
    with kn obtain w k where "c = ConstantInt w k" by blast
    with Some m show ?thesis by (auto simp: materialize_def)
  next
    case None
    show ?thesis
    proof (cases "expandCodeFor A g s t")
      case None
      with \<open>known = None\<close> m show ?thesis by (simp add: materialize_def)
    next
      case (Some nv)
      obtain new v where nv: "nv = (new, v)" by (cases nv)
      from ex fr Some nv have a: "\<forall>p\<in>set ps. v \<noteq> Inst p"
        and b: "\<forall>i. v = Inst i \<longrightarrow> i < fresh g + length new"
        unfolding expanderAvoids_def by blast+
      from m \<open>known = None\<close> Some nv
      have "g1 = foldl (\<lambda>g' n. insertInstr g' ip n) g new" "r = Some v"
        by (simp_all add: materialize_def)
      with a b show ?thesis by (simp add: foldl_insertInstr_fresh)
    qed
  qed
qed

lemma constantValue_const: "constantValue s = Some c \<Longrightarrow> \<exists>w k. c = ConstantInt w k"
  by (auto simp: constantValue_def split: scev.splits)

text \<open>The outcomes of the scan's body for one merge point.\<close>

lemma processPHI_cases:
  assumes "processPHI A L hi pi (g, dead, flag) pn = (g', dead', flag')"
  obtains
    (skip) "g' = g" "dead' = dead" "flag' = flag"
  | (noStart) ip start w where
      "materialize A g start (IntegerTy w) ip (constantValue start) = (g', None)"
      "dead' = dead" "flag' = flag"
  | (noStep) ip start step w g1 sv where
      "materialize A g start (IntegerTy w) ip (constantValue start) = (g1, Some sv)"
      "materialize A g1 step (IntegerTy w) ip (constantValue step) = (g', None)"
      "dead' = dead" "flag' = flag"
  | (rewritten) ip basicIV start step w g1 g2 sv tv where
      "getType (inst g pn) = IntegerTy w"
      "getSCEV A g pn = SCEVAddRecExpr (loopId L) start step []"
      "getCanonicalInductionVariable A g L = Some basicIV"
      "getSCEV A g pn \<noteq> getSCEV A g basicIV"
      "isSafeToExpand A (getSCEV A g pn)"
      "materialize A g start (IntegerTy w) ip (constantValue start) = (g1, Some sv)"
      "materialize A g1 step (IntegerTy w) ip (constantValue step) = (g2, Some tv)"
      "constantValue start \<noteq> None \<and> constantValue step \<noteq> None \<or> pi = Some ip"
      "g' = rewritePHI g2 hi basicIV sv tv pn" "dead' = dead @ [pn]" "flag' = True"
proof (cases "getType (inst g pn)")
  case OtherTy
  with assms show ?thesis by (intro skip) (simp_all add: processPHI_def)
next
  case (IntegerTy w)
  show ?thesis
  proof (cases "getSCEV A g pn")
    case (SCEVConstant x1 x2)
    with assms IntegerTy show ?thesis by (intro skip) (simp_all add: processPHI_def)
  next
    case (SCEVUnknown x)
    with assms IntegerTy show ?thesis by (intro skip) (simp_all add: processPHI_def)
  next
    case (SCEVAddRecExpr l start step further)
    show ?thesis
    proof (cases "l = loopId L \<and> further = []")
      case False
      with assms IntegerTy SCEVAddRecExpr show ?thesis
        by (intro skip) (auto simp: processPHI_def)
    next
      case True
      then have sc: "getSCEV A g pn = SCEVAddRecExpr (loopId L) start step []"
        using SCEVAddRecExpr by simp
      show ?thesis
      proof (cases "getCanonicalInductionVariable A g L")
        case None
        with assms IntegerTy sc show ?thesis by (intro skip) (simp_all add: processPHI_def)
      next
        case (Some basicIV)
        show ?thesis
        proof (cases "\<not> isSafeToExpand A (getSCEV A g pn) \<or> getSCEV A g pn = getSCEV A g basicIV")
          case True
          with assms IntegerTy sc Some show ?thesis
            by (intro skip) (auto simp: processPHI_def)
        next
          case False
          then have safe: "isSafeToExpand A (getSCEV A g pn)"
            and neq: "getSCEV A g pn \<noteq> getSCEV A g basicIV" by simp_all
          from False sc have F: "\<not> (\<not> isSafeToExpand A (SCEVAddRecExpr (loopId L) start step []) \<or>
              SCEVAddRecExpr (loopId L) start step [] = getSCEV A g basicIV)" by simp
          show ?thesis
          proof (cases "constantValue start = None \<or> constantValue step = None")
            case False
            then obtain c1 c2 where c: "constantValue start = Some c1" "constantValue step = Some c2"
              by auto
            have m1: "materialize A g start (IntegerTy w) hi (constantValue start) = (g, Some c1)"
              and m2: "materialize A g step (IntegerTy w) hi (constantValue step) = (g, Some c2)"
              by (simp_all add: materialize_def c)
            from assms IntegerTy sc Some F c
            have "g' = rewritePHI g hi basicIV c1 c2 pn" "dead' = dead @ [pn]" "flag' = True"
              by (simp_all add: processPHI_def)
            with IntegerTy sc Some neq safe m1 m2 False show ?thesis
              by (intro rewritten [of w start step basicIV hi g c1 g c2]) simp_all
          next
            case True
            show ?thesis
            proof (cases pi)
              case None
              with assms IntegerTy sc Some F True show ?thesis
                by (intro skip) (simp_all add: processPHI_def)
            next
              case (Some ip)
              obtain g1 r1 where m1: "materialize A g start (IntegerTy w) ip (constantValue start) = (g1, r1)"
                by (cases "materialize A g start (IntegerTy w) ip (constantValue start)")
              show ?thesis
              proof (cases r1)
                case None
                with assms IntegerTy sc \<open>getCanonicalInductionVariable A g L = Some basicIV\<close> F True Some m1
                have "g' = g1" "dead' = dead" "flag' = flag"
                  by (simp_all add: processPHI_def)
                with m1 None show ?thesis by (intro noStart [of start w ip]) simp_all
              next
                case (Some sv)
                note r1 = this
                obtain g2 r2 where m2: "materialize A g1 step (IntegerTy w) ip (constantValue step) = (g2, r2)"
                  by (cases "materialize A g1 step (IntegerTy w) ip (constantValue step)")
                show ?thesis
                proof (cases r2)
                  case None
                  with assms IntegerTy sc \<open>getCanonicalInductionVariable A g L = Some basicIV\<close> F True
                    \<open>pi = Some ip\<close> m1 r1 m2
                  have "g' = g2" "dead' = dead" "flag' = flag"
                    by (simp_all add: processPHI_def)
                  with m1 r1 m2 None show ?thesis by (intro noStep [of start w ip g1 sv step]) simp_all
                next
                  case (Some tv)
                  with assms IntegerTy sc \<open>getCanonicalInductionVariable A g L = Some basicIV\<close> F True
                    \<open>pi = Some ip\<close> m1 r1 m2
                  have "g' = rewritePHI g2 hi basicIV sv tv pn" "dead' = dead @ [pn]" "flag' = True"
                    by (simp_all add: processPHI_def)
                  with IntegerTy sc \<open>getCanonicalInductionVariable A g L = Some basicIV\<close> neq safe
                    m1 r1 m2 Some \<open>pi = Some ip\<close> show ?thesis
                    by (intro rewritten [of w start step basicIV ip g1 sv g2 tv]) simp_all
                qed
              qed
            qed
          qed
        qed
      qed
    qed
  qed
qed

lemma processPHI_inv:
  assumes cu: "canonicalIsUsed A L" and ea: "expanderAvoids A ps" and pn: "pn \<in> set ps"
    and inv: "scanInv ps g0 st"
  shows "scanInv ps g0 (processPHI A L hi pi st pn)"
proof -
  obtain g dead flag where st: "st = (g, dead, flag)" by (cases st)
  obtain g' dead' flag' where r: "processPHI A L hi pi (g, dead, flag) pn = (g', dead', flag')"
    by (cases "processPHI A L hi pi (g, dead, flag) pn")
  from inv st have sub: "set dead \<subseteq> set ps" and nr: "\<forall>p\<in>set dead. noRef g p"
    and fr: "\<forall>p\<in>set ps. p < fresh g" and bd: "\<forall>b. set (body g0 b) \<subseteq> set (body g b)"
    and fl: "flag = (dead \<noteq> [])"
    by (simp_all add: scanInv_def)
  have "scanInv ps g0 (g', dead', flag')"
    using r
  proof (cases rule: processPHI_cases)
    case skip
    with inv st show ?thesis by simp
  next
    case (noStart ip start w)
    from materialize_props [OF ea fr _ noStart(1)] constantValue_const
    have "fresh g \<le> fresh g'" "\<forall>p\<in>set ps. noRef g p \<longrightarrow> noRef g' p"
      "\<forall>b. set (body g b) \<subseteq> set (body g' b)" by blast+
    with sub nr fr bd fl noStart(2,3) show ?thesis
      by (fastforce simp: scanInv_def)
  next
    case (noStep ip start step w g1 sv)
    from materialize_props [OF ea fr _ noStep(1)] constantValue_const
    have a: "fresh g \<le> fresh g1" "\<forall>p\<in>set ps. noRef g p \<longrightarrow> noRef g1 p"
      "\<forall>b. set (body g b) \<subseteq> set (body g1 b)" by blast+
    then have fr1: "\<forall>p\<in>set ps. p < fresh g1" using fr by fastforce
    from materialize_props [OF ea fr1 _ noStep(2)] constantValue_const
    have b: "fresh g1 \<le> fresh g'" "\<forall>p\<in>set ps. noRef g1 p \<longrightarrow> noRef g' p"
      "\<forall>b. set (body g1 b) \<subseteq> set (body g' b)" by blast+
    have "\<forall>b. set (body g0 b) \<subseteq> set (body g' b)"
      using bd a(3) b(3) by blast
    moreover have "\<forall>p\<in>set ps. p < fresh g'" using fr1 b(1) by fastforce
    moreover have "\<forall>p\<in>set dead. noRef g' p" using nr sub a(2) b(2) by blast
    ultimately show ?thesis using sub fl noStep(3,4)
      by (simp add: scanInv_def)
  next
    case (rewritten ip basicIV start step w g1 g2 sv tv)
    from materialize_props [OF ea fr _ rewritten(6)] constantValue_const
    have a: "fresh g \<le> fresh g1" "\<forall>p\<in>set ps. noRef g p \<longrightarrow> noRef g1 p"
      "\<forall>b. set (body g b) \<subseteq> set (body g1 b)" "\<forall>p\<in>set ps. sv \<noteq> Inst p" by blast+
    then have fr1: "\<forall>p\<in>set ps. p < fresh g1" using fr by fastforce
    from materialize_props [OF ea fr1 _ rewritten(7)] constantValue_const
    have b: "fresh g1 \<le> fresh g2" "\<forall>p\<in>set ps. noRef g1 p \<longrightarrow> noRef g2 p"
      "\<forall>b. set (body g1 b) \<subseteq> set (body g2 b)" "\<forall>p\<in>set ps. tv \<noteq> Inst p" by blast+
    then have fr2: "\<forall>p\<in>set ps. p < fresh g2" using fr1 by fastforce
    have ne: "basicIV \<noteq> pn" using rewritten(4) by auto
    from cu rewritten(3) obtain u where u: "Inst basicIV \<in> set (operands (inst g u))"
      unfolding canonicalIsUsed_def by blast
    have nd: "\<forall>p\<in>set dead. basicIV \<noteq> p"
      using nr u by (auto simp: noRef_def)
    have new: "noRef g' pn"
      unfolding rewritten(9) using fr2 pn a(4) b(4) ne by (intro rewritePHI_noRef) auto
    have old: "\<forall>p\<in>set dead. noRef g' p"
    proof
      fix p assume p: "p \<in> set dead"
      with sub have pp: "p \<in> set ps" by blast
      with p nr a(2) b(2) have "noRef g2 p" by blast
      then show "noRef g' p"
        unfolding rewritten(9) using fr2 pp a(4) b(4) nd p by (intro rewritePHI_noRef_other) auto
    qed
    have "\<forall>b. set (body g0 b) \<subseteq> set (body g' b)"
      using bd a(3) b(3) rewritePHI_body [of g2 _ hi basicIV sv tv pn] unfolding rewritten(9) by blast
    moreover have "\<forall>p\<in>set ps. p < fresh g'"
      using fr2 unfolding rewritten(9) by (fastforce simp: rewritePHI_fresh)
    ultimately show ?thesis using sub pn new old rewritten(10,11)
      by (simp add: scanInv_def)
  qed
  with st r show ?thesis by simp
qed

lemma foldl_processPHI_inv:
  assumes "canonicalIsUsed A L" "expanderAvoids A ps" "set xs \<subseteq> set ps" "scanInv ps g0 st"
  shows "scanInv ps g0 (foldl (processPHI A L hi pi) st xs)"
  using assms(3,4)
proof (induction xs arbitrary: st)
  case Nil
  then show ?case by simp
next
  case (Cons x xs)
  from Cons.prems have "scanInv ps g0 (processPHI A L hi pi st x)"
    by (intro processPHI_inv assms(1,2)) auto
  with Cons show ?case by simp
qed

lemma foldl_erase_body:
  "body (foldl eraseFromParent g ds) b = filter (\<lambda>x. x \<notin> set ds) (body g b)"
proof (induction ds arbitrary: g)
  case Nil
  show ?case by simp
next
  case (Cons d ds)
  have "body (eraseFromParent g d) b = filter (\<lambda>x. x \<noteq> d) (body g b)"
    by (simp add: eraseFromParent_def)
  with Cons [of "eraseFromParent g d"] show ?case
    by (simp add: conj_commute)
qed

lemma foldl_erase_noRef: "noRef g p \<Longrightarrow> noRef (foldl eraseFromParent g ds) p"
  by (induction ds arbitrary: g) (simp_all add: eraseFromParent_noRef)

lemma phis_subset: "set (phis g h) \<subseteq> set (body g h)"
  by (auto simp: phis_def dest: set_takeWhileD)


lemma affineValue_closed: "affineValue w start step n = (start + int n * step) mod 2 ^ w"
proof (induction n)
  case 0
  show ?case by simp
next
  case (Suc n)
  have "(start + int n * step) mod 2 ^ w + step = ((start + int n * step) mod 2 ^ w + step)" by simp
  then show ?case
    by (simp add: Suc mod_simps algebra_simps)
qed

lemma rewritePHI_mul:
  assumes "basicIV \<noteq> pn" "stepVal \<noteq> Inst pn"
  shows "inst (rewritePHI g hi basicIV startVal stepVal pn) (fresh g) =
           \<lparr>opcode = Mul, getType = getType (inst g basicIV), operands = [Inst basicIV, stepVal],
            mayReadOrWriteMemory = False, isSafeToSpeculativelyExecute = True, isTerminator = False\<rparr>"
  using assms
  by (simp add: rewritePHI_def CreateBinOp_def insertInstr_def replaceAllUsesWith_def typeOf_def split_def Let_def)

lemma typeOf_insertInstr:
  "\<forall>i. v = Inst i \<longrightarrow> i < fresh g \<Longrightarrow> typeOf (insertInstr g ip new) v = typeOf g v"
  by (auto simp: typeOf_def insertInstr_def split: val.splits)

lemma rewritePHI_add:
  assumes "startVal \<noteq> Inst pn" "pn < fresh g" "\<forall>i. startVal = Inst i \<longrightarrow> i < fresh g"
  shows "inst (rewritePHI g hi basicIV startVal stepVal pn) (Suc (fresh g)) =
           \<lparr>opcode = Add, getType = typeOf g startVal, operands = [startVal, Inst (fresh g)],
            mayReadOrWriteMemory = False, isSafeToSpeculativelyExecute = True, isTerminator = False\<rparr>"
proof -
  let ?g1 = "insertInstr g hi \<lparr>opcode = Mul, getType = typeOf g (Inst basicIV), operands = [Inst basicIV, stepVal],
         mayReadOrWriteMemory = False, isSafeToSpeculativelyExecute = True, isTerminator = False\<rparr>"
  have t: "typeOf ?g1 startVal = typeOf g startVal"
    using assms(3) by (rule typeOf_insertInstr)
  have f: "fresh ?g1 = Suc (fresh g)" by (simp add: insertInstr_def)
  show ?thesis
    using assms(1,2)
    by (simp add: rewritePHI_def CreateBinOp_def split_def Let_def t f)
       (simp add: insertInstr_def replaceAllUsesWith_def)
qed

lemma rewritePHI_layout:
  "body (rewritePHI g hi basicIV startVal stepVal pn) b =
     insertBefore hi (Suc (fresh g)) (insertBefore hi (fresh g) (body g b))"
  by (simp add: rewritePHI_def CreateBinOp_def insertInstr_def replaceAllUsesWith_def split_def Let_def)

lemma rewritePHI_redirects:
  assumes "u \<noteq> fresh g" "u \<noteq> Suc (fresh g)"
  shows "operands (inst (rewritePHI g hi basicIV startVal stepVal pn) u) =
           map (\<lambda>v. if v = Inst pn then Inst (Suc (fresh g)) else v) (operands (inst g u))"
  using assms
  by (simp add: rewritePHI_def CreateBinOp_def insertInstr_def replaceAllUsesWith_def split_def Let_def)

lemma rewritePHI_value:
  assumes "basicIV \<noteq> pn" "startVal \<noteq> Inst pn" "stepVal \<noteq> Inst pn" "pn < fresh g"
    "\<forall>i. startVal = Inst i \<longrightarrow> i < fresh g"
    "getType (inst g basicIV) = IntegerTy w" "typeOf g startVal = IntegerTy w"
    "st basicIV = int n mod 2 ^ w"
  shows "execInstr (rewritePHI g hi basicIV startVal stepVal pn) env
           (execInstr (rewritePHI g hi basicIV startVal stepVal pn) env st (fresh g))
           (Suc (fresh g)) (Suc (fresh g)) =
         affineValue w (valOf env st startVal) (valOf env st stepVal) n"
proof -
  let ?g' = "rewritePHI g hi basicIV startVal stepVal pn"
  let ?m = "fresh g"
  let ?st1 = "st(?m := (st basicIV * valOf env st stepVal) mod 2 ^ w)"
  have e1: "execInstr ?g' env st ?m = ?st1"
    using rewritePHI_mul [OF assms(1,3), of g hi startVal] assms(6)
    by (simp add: execInstr_def valOf_def)
  have sv: "valOf env ?st1 startVal = valOf env st startVal"
    using assms(5) by (auto simp: valOf_def split: val.splits)
  have e2: "execInstr ?g' env ?st1 (Suc ?m) (Suc ?m) =
      (valOf env st startVal + (st basicIV * valOf env st stepVal) mod 2 ^ w) mod 2 ^ w"
    using rewritePHI_add [OF assms(2,4,5), of hi basicIV stepVal] assms(7) sv
    by (simp add: execInstr_def) (simp add: valOf_def)
  have "execInstr ?g' env (execInstr ?g' env st ?m) (Suc ?m) (Suc ?m) =
      (valOf env st startVal + (st basicIV * valOf env st stepVal) mod 2 ^ w) mod 2 ^ w"
    by (simp only: e1 e2)
  also have "\<dots> = (valOf env st startVal + int n * valOf env st stepVal) mod 2 ^ w"
    by (simp add: assms(8) mod_simps)
  finally show ?thesis
    by (simp add: affineValue_closed)
qed

lemma materialize_known:
  "known = Some c \<Longrightarrow> materialize A g s t ip known = (g1, r) \<Longrightarrow> g1 = g \<and> r = Some c"
  by (simp add: materialize_def)


lemma findCanonical_used:
  "findCanonical g L = Some p \<Longrightarrow> \<exists>u. Inst p \<in> set (operands (inst g u))"
proof -
  assume "findCanonical g L = Some p"
  then have "isCanonicalPHI g p"
    by (auto simp: findCanonical_def find_Some_iff split: option.splits)
  then obtain w inc where "operands (inst g inc) = [Inst p, ConstantInt w 1]"
    unfolding isCanonicalPHI_def by (auto elim: canonicalShape.elims)
  then have "Inst p \<in> set (operands (inst g inc))" by simp
  then show ?thesis by blast
qed

lemma symbolic_contracts:
  "canonicalIsUsed symbolicA ivL" "expanderAvoids symbolicA [10, 11]"
proof -
  show "canonicalIsUsed symbolicA ivL"
    unfolding canonicalIsUsed_def
    by (auto simp: symbolicA_def ivA_def dest: findCanonical_used)
  show "expanderAvoids symbolicA [10, 11]"
    unfolding expanderAvoids_def
    by (auto simp: symbolicA_def ivA_def mkInstr_def split: if_splits)
qed

lemma symbolic_scan:
  "phis ivG 3 = [10, 11]"
  "fst (snd (scanHeader symbolicA ivL 3 12 ivG)) = [11]"
  "body (fst (scanHeader symbolicA ivL 3 12 ivG)) 3 = [10, 11, 42, 43, 12, 14, 15, 16]"
  "body (fst (scanHeader symbolicA ivL 3 12 ivG)) 2 = [41, 9]"
  "body (fst (rewriteLoop symbolicA ivL 3 12 ivG)) 3 = [10, 42, 43, 12, 14, 15, 16]"
  "operands (inst (fst (rewriteLoop symbolicA ivL 3 12 ivG)) 12) = [OtherVal OtherTy 1, Inst 43]"
  "fresh ivG = 41"
  by code_simp+











text \<open>The redirection of the uses and the deletion.\<close>

lemma sumOfProduct_iff:
  "sumOfProduct lo g h ops \<longleftrightarrow>
     (\<exists>sv m. ops = [sv, Inst m] \<and> lo \<le> m \<and> m < fresh g \<and> m \<in> set (body g h) \<and>
             opcode (inst g m) = Mul)"
  by (cases "(lo, g, h, ops)" rule: sumOfProduct.cases) auto

lemma synthesizedAdd_iff:
  "synthesizedAdd g0 g h a \<longleftrightarrow>
     (fresh g0 \<le> a \<and> a < fresh g \<and> a \<in> set (body g h) \<and> opcode (inst g a) = Add \<and>
      (\<exists>sv m. operands (inst g a) = [sv, Inst m] \<and> fresh g0 \<le> m \<and> m < fresh g \<and>
              m \<in> set (body g h) \<and> opcode (inst g m) = Mul))"
  by (simp add: synthesizedAdd_def sumOfProduct_iff)

lemma synthesizedAdd_map:
  assumes s: "synthesizedAdd g0 g h a" and fr: "fresh g \<le> fresh g'"
    and keep: "\<forall>u. fresh g0 \<le> u \<and> u < fresh g \<longrightarrow>
        opcode (inst g' u) = opcode (inst g u) \<and>
        operands (inst g' u) = map f (operands (inst g u)) \<and>
        (u \<in> set (body g h) \<longrightarrow> u \<in> set (body g' h))"
    and f: "\<forall>m. fresh g0 \<le> m \<longrightarrow> f (Inst m) = Inst m"
  shows "synthesizedAdd g0 g' h a"
proof -
  from s obtain sv m where a: "fresh g0 \<le> a" "a < fresh g" "a \<in> set (body g h)"
    "opcode (inst g a) = Add" "operands (inst g a) = [sv, Inst m]" "fresh g0 \<le> m" "m < fresh g"
    "m \<in> set (body g h)" "opcode (inst g m) = Mul"
    unfolding synthesizedAdd_iff by blast
  from keep a(1,2) have ka: "opcode (inst g' a) = opcode (inst g a)"
    "operands (inst g' a) = map f (operands (inst g a))" "a \<in> set (body g h) \<longrightarrow> a \<in> set (body g' h)"
    by blast+
  from keep a(6,7) have km: "opcode (inst g' m) = opcode (inst g m)"
    "m \<in> set (body g h) \<longrightarrow> m \<in> set (body g' h)"
    by blast+
  have "operands (inst g' a) = [f sv, Inst m]" using ka(2) a(5,6) f by simp
  then show ?thesis
    unfolding synthesizedAdd_iff using a ka km fr by auto
qed

lemma redirected_mono:
  assumes inv: "redirected h hi ps g0 repl (g, dead, flag)" and fr: "fresh g \<le> fresh g1"
    and same: "\<forall>u<fresh g. inst g1 u = inst g u"
    and bd: "\<forall>b. set (body g b) \<subseteq> set (body g1 b)"
    and us: "\<forall>j. set (users g j) \<subseteq> set (users g1 j)"
  shows "redirected h hi ps g0 repl (g1, dead, flag')"
proof -
  from inv have k0: "fresh g0 \<le> fresh g" and k3: "hi \<in> set (body g h)"
    and k1: "\<forall>u<fresh g0. operands (inst g u) = map (redirect repl dead) (operands (inst g0 u))"
    and k2: "\<forall>p\<in>set dead. synthesizedAdd g0 g h (repl p) \<and> set (users g0 p) \<subseteq> set (users g (repl p))"
    and k6: "\<forall>p\<in>set ps. p \<notin> set dead \<longrightarrow> set (users g0 p) \<subseteq> set (users g p)"
    and k7: "inj_on repl (set dead)"
    by (simp_all add: redirected_def)
  have "\<forall>p\<in>set dead. synthesizedAdd g0 g1 h (repl p)"
  proof
    fix p assume "p \<in> set dead"
    with k2 have "synthesizedAdd g0 g h (repl p)" by blast
    then show "synthesizedAdd g0 g1 h (repl p)"
      using fr
    proof (rule synthesizedAdd_map [where f = "\<lambda>v. v"])
      show "\<forall>u. fresh g0 \<le> u \<and> u < fresh g \<longrightarrow>
        opcode (inst g1 u) = opcode (inst g u) \<and>
        operands (inst g1 u) = map (\<lambda>v. v) (operands (inst g u)) \<and>
        (u \<in> set (body g h) \<longrightarrow> u \<in> set (body g1 h))"
        using same bd by auto
    qed simp
  qed
  moreover have "\<forall>p\<in>set dead. set (users g0 p) \<subseteq> set (users g1 (repl p))"
    using k2 us by blast
  moreover have "\<forall>p\<in>set ps. p \<notin> set dead \<longrightarrow> set (users g0 p) \<subseteq> set (users g1 p)"
    using k6 us by blast
  moreover have "\<forall>u<fresh g0. operands (inst g1 u) = map (redirect repl dead) (operands (inst g0 u))"
    using k1 same k0 by simp
  moreover have "hi \<in> set (body g1 h)" using k3 bd by blast
  ultimately show ?thesis using k0 fr k7 by (simp add: redirected_def)
qed

lemma addUses_mono: "set (us j) \<subseteq> set (addUses i ops us j)"
  unfolding addUses_def
proof (induction ops arbitrary: us)
  case Nil
  show ?case by simp
next
  case (Cons v ops)
  let ?us = "case v of Inst k \<Rightarrow> us(k := i # us k) | _ \<Rightarrow> us"
  have "set (us j) \<subseteq> set (?us j)" by (auto split: val.splits)
  with Cons [of ?us] show ?case by auto
qed

lemma insertInstr_users: "set (users g j) \<subseteq> set (users (insertInstr g ip new) j)"
  by (simp add: insertInstr_def addUses_mono)

lemma insertInstr_inst: "u < fresh g \<Longrightarrow> inst (insertInstr g ip new) u = inst g u"
  by (simp add: insertInstr_def)

lemma foldl_insertInstr_users:
  "set (users g j) \<subseteq> set (users (foldl (\<lambda>g' n. insertInstr g' ip n) g new) j)"
proof (induction new arbitrary: g)
  case Nil
  show ?case by simp
next
  case (Cons n new)
  have "set (users g j) \<subseteq> set (users (insertInstr g ip n) j)" by (rule insertInstr_users)
  with Cons [of "insertInstr g ip n"] show ?case by auto
qed

lemma foldl_insertInstr_inst:
  "u < fresh g \<Longrightarrow> inst (foldl (\<lambda>g' n. insertInstr g' ip n) g new) u = inst g u"
proof (induction new arbitrary: g)
  case Nil
  show ?case by simp
next
  case (Cons n new)
  from Cons.prems have "u < fresh (insertInstr g ip n)" by (simp add: insertInstr_fresh)
  from Cons.IH [OF this] Cons.prems show ?case by (simp add: insertInstr_inst)
qed

lemma materialize_keeps:
  assumes "materialize A g s t ip known = (g1, r)"
  shows "\<forall>u<fresh g. inst g1 u = inst g u" and "\<forall>j. set (users g j) \<subseteq> set (users g1 j)"
  using assms foldl_insertInstr_users [of g _ ip]
  by (auto simp: materialize_def foldl_insertInstr_inst split: option.splits)

lemma insertBefore_mem: "t \<in> set xs \<Longrightarrow> i \<in> set (insertBefore t i xs)"
  by (induction xs) auto

lemma rewritePHI_opcode:
  assumes "u \<noteq> fresh g" "u \<noteq> Suc (fresh g)"
  shows "opcode (inst (rewritePHI g hi basicIV startVal stepVal pn) u) = opcode (inst g u)"
  using assms
  by (simp add: rewritePHI_def CreateBinOp_def insertInstr_def replaceAllUsesWith_def split_def Let_def)

lemma rewritePHI_users_new:
  assumes "pn < fresh g"
  shows "set (users g pn) \<subseteq> set (users (rewritePHI g hi basicIV startVal stepVal pn) (Suc (fresh g)))"
proof -
  let ?g1 = "fst (CreateBinOp Mul g hi (Inst basicIV) stepVal)"
  let ?mul = "snd (CreateBinOp Mul g hi (Inst basicIV) stepVal)"
  let ?g2 = "fst (CreateBinOp Add ?g1 hi startVal ?mul)"
  have "set (users g pn) \<subseteq> set (users ?g1 pn)" by (simp add: CreateBinOp_def insertInstr_users)
  moreover have "set (users ?g1 pn) \<subseteq> set (users ?g2 pn)" by (simp add: CreateBinOp_def insertInstr_users)
  moreover have "users (rewritePHI g hi basicIV startVal stepVal pn) (Suc (fresh g)) =
      rev (users ?g2 pn) @ users ?g2 (Suc (fresh g))"
    using assms
    by (simp add: rewritePHI_def split_def Let_def replaceAllUsesWith_def)
       (simp add: CreateBinOp_def insertInstr_fresh)
  ultimately show ?thesis by auto
qed

lemma rewritePHI_users_other:
  assumes "j \<noteq> pn"
  shows "set (users g j) \<subseteq> set (users (rewritePHI g hi basicIV startVal stepVal pn) j)"
proof -
  let ?g1 = "fst (CreateBinOp Mul g hi (Inst basicIV) stepVal)"
  let ?mul = "snd (CreateBinOp Mul g hi (Inst basicIV) stepVal)"
  let ?g2 = "fst (CreateBinOp Add ?g1 hi startVal ?mul)"
  have "set (users g j) \<subseteq> set (users ?g1 j)" by (simp add: CreateBinOp_def insertInstr_users)
  moreover have "set (users ?g1 j) \<subseteq> set (users ?g2 j)" by (simp add: CreateBinOp_def insertInstr_users)
  moreover have "set (users ?g2 j) \<subseteq> set (users (rewritePHI g hi basicIV startVal stepVal pn) j)"
    using assms
    by (simp add: rewritePHI_def split_def Let_def replaceAllUsesWith_def)
       (auto simp: CreateBinOp_def insertInstr_fresh)
  ultimately show ?thesis by blast
qed

lemma rewritePHI_mem:
  assumes "hi \<in> set (body g h)"
  shows "fresh g \<in> set (body (rewritePHI g hi basicIV startVal stepVal pn) h)"
    and "Suc (fresh g) \<in> set (body (rewritePHI g hi basicIV startVal stepVal pn) h)"
proof -
  have a: "fresh g \<in> set (insertBefore hi (fresh g) (body g h))"
    using assms by (rule insertBefore_mem)
  then show "fresh g \<in> set (body (rewritePHI g hi basicIV startVal stepVal pn) h)"
    unfolding rewritePHI_layout using set_insertBefore_sup by blast
  have "hi \<in> set (insertBefore hi (fresh g) (body g h))"
    using assms set_insertBefore_sup by blast
  then show "Suc (fresh g) \<in> set (body (rewritePHI g hi basicIV startVal stepVal pn) h)"
    unfolding rewritePHI_layout by (rule insertBefore_mem)
qed

lemma redirect_step:
  assumes p0: "pn < lo" and rp: "\<forall>p\<in>set dead. lo \<le> repl p"
  shows "(\<lambda>v. if v = Inst pn then Inst new else v) (redirect repl dead v) =
         redirect (if pn \<in> set dead then repl else repl(pn := new)) (dead @ [pn]) v"
proof (cases v)
  case (Inst p)
  show ?thesis
  proof (cases "p \<in> set dead")
    case True
    with rp have "lo \<le> repl p" by blast
    with p0 have "repl p \<noteq> pn" by simp
    with True Inst show ?thesis by (auto simp: redirect_def)
  next
    case False
    with Inst show ?thesis by (auto simp: redirect_def)
  qed
qed (simp_all add: redirect_def)

lemma rewritePHI_redirected:
  assumes pn: "pn \<in> set ps" and ps0: "\<forall>p\<in>set ps. p < fresh g0"
    and inv: "redirected h hi ps g0 repl (g, dead, flag)"
    and ne: "basicIV \<noteq> pn" "sv \<noteq> Inst pn" "tv \<noteq> Inst pn"
    and svb: "\<forall>i. sv = Inst i \<longrightarrow> i < fresh g"
  shows "redirected h hi ps g0 (if pn \<in> set dead then repl else repl(pn := Suc (fresh g)))
           (rewritePHI g hi basicIV sv tv pn, dead @ [pn], True)"
proof -
  let ?g' = "rewritePHI g hi basicIV sv tv pn"
  let ?new = "Suc (fresh g)"
  let ?repl = "if pn \<in> set dead then repl else repl(pn := ?new)"
  from inv have k0: "fresh g0 \<le> fresh g" and k3: "hi \<in> set (body g h)"
    and k1: "\<forall>u<fresh g0. operands (inst g u) = map (redirect repl dead) (operands (inst g0 u))"
    and k2: "\<forall>p\<in>set dead. synthesizedAdd g0 g h (repl p) \<and> set (users g0 p) \<subseteq> set (users g (repl p))"
    and k6: "\<forall>p\<in>set ps. p \<notin> set dead \<longrightarrow> set (users g0 p) \<subseteq> set (users g p)"
    and k7: "inj_on repl (set dead)"
    by (simp_all add: redirected_def)
  from pn ps0 have pn0: "pn < fresh g0" by blast
  with k0 have png: "pn < fresh g" by simp
  have rb: "\<forall>p\<in>set dead. fresh g0 \<le> repl p \<and> repl p < fresh g"
    using k2 by (simp add: synthesizedAdd_iff)
  have same: "\<forall>p\<in>set dead. ?repl p = repl p" by auto
  have fr: "fresh ?g' = Suc (Suc (fresh g))" by (rule rewritePHI_fresh)
  have c0: "fresh g0 \<le> fresh ?g'" using k0 fr by simp
  have c3: "hi \<in> set (body ?g' h)" using k3 rewritePHI_body by blast
  have c1: "\<forall>u<fresh g0. operands (inst ?g' u) = map (redirect ?repl (dead @ [pn])) (operands (inst g0 u))"
  proof (intro allI impI)
    fix u assume u: "u < fresh g0"
    with k0 have "u \<noteq> fresh g" "u \<noteq> Suc (fresh g)" by simp_all
    then have "operands (inst ?g' u) =
        map (\<lambda>v. if v = Inst pn then Inst ?new else v) (operands (inst g u))"
      by (rule rewritePHI_redirects)
    also have "\<dots> = map (\<lambda>v. if v = Inst pn then Inst ?new else v)
        (map (redirect repl dead) (operands (inst g0 u)))"
      using k1 u by simp
    also have "\<dots> = map (redirect ?repl (dead @ [pn])) (operands (inst g0 u))"
      using redirect_step [OF pn0, where dead = dead and repl = repl and new = ?new] rb by (simp add: comp_def)
    finally show "operands (inst ?g' u) = map (redirect ?repl (dead @ [pn])) (operands (inst g0 u))" .
  qed
  have old: "\<forall>p\<in>set dead. synthesizedAdd g0 ?g' h (repl p) \<and> set (users g0 p) \<subseteq> set (users ?g' (repl p))"
  proof
    fix p assume p: "p \<in> set dead"
    with k2 have s: "synthesizedAdd g0 g h (repl p)"
      and us: "set (users g0 p) \<subseteq> set (users g (repl p))" by blast+
    have "synthesizedAdd g0 ?g' h (repl p)"
      using s
    proof (rule synthesizedAdd_map [where f = "\<lambda>v. if v = Inst pn then Inst ?new else v"])
      show "fresh g \<le> fresh ?g'" using fr by simp
      show "\<forall>u. fresh g0 \<le> u \<and> u < fresh g \<longrightarrow>
              opcode (inst ?g' u) = opcode (inst g u) \<and>
              operands (inst ?g' u) = map (\<lambda>v. if v = Inst pn then Inst ?new else v) (operands (inst g u)) \<and>
              (u \<in> set (body g h) \<longrightarrow> u \<in> set (body ?g' h))"
        using rewritePHI_body [of g h hi basicIV sv tv pn]
        by (auto simp: rewritePHI_opcode rewritePHI_redirects)
      show "\<forall>m. fresh g0 \<le> m \<longrightarrow> (if Inst m = Inst pn then Inst ?new else Inst m) = Inst m"
        using pn0 by auto
    qed
    moreover have "repl p \<noteq> pn" using rb p pn0 by fastforce
    then have "set (users g (repl p)) \<subseteq> set (users ?g' (repl p))"
      by (rule rewritePHI_users_other)
    ultimately show "synthesizedAdd g0 ?g' h (repl p) \<and> set (users g0 p) \<subseteq> set (users ?g' (repl p))"
      using us by blast
  qed
  have new: "pn \<notin> set dead \<longrightarrow>
      synthesizedAdd g0 ?g' h ?new \<and> set (users g0 pn) \<subseteq> set (users ?g' ?new)"
  proof
    assume nd: "pn \<notin> set dead"
    have add: "opcode (inst ?g' ?new) = Add" "operands (inst ?g' ?new) = [sv, Inst (fresh g)]"
      using rewritePHI_add [OF ne(2) png svb, of hi basicIV tv] by simp_all
    have mul: "opcode (inst ?g' (fresh g)) = Mul"
      using rewritePHI_mul [OF ne(1,3), of g hi sv] by simp
    have "synthesizedAdd g0 ?g' h ?new"
      unfolding synthesizedAdd_iff
      using add mul k0 fr rewritePHI_mem [OF k3, of basicIV sv tv pn] by simp
    moreover have "set (users g0 pn) \<subseteq> set (users g pn)" using k6 pn nd by blast
    moreover have "set (users g pn) \<subseteq> set (users ?g' ?new)"
      using png by (rule rewritePHI_users_new)
    ultimately show "synthesizedAdd g0 ?g' h ?new \<and> set (users g0 pn) \<subseteq> set (users ?g' ?new)"
      by blast
  qed
  have c2: "\<forall>p\<in>set (dead @ [pn]). synthesizedAdd g0 ?g' h (?repl p) \<and>
              set (users g0 p) \<subseteq> set (users ?g' (?repl p))"
    using old new by auto
  have c6: "\<forall>p\<in>set ps. p \<notin> set (dead @ [pn]) \<longrightarrow> set (users g0 p) \<subseteq> set (users ?g' p)"
  proof (intro ballI impI)
    fix p assume p: "p \<in> set ps" "p \<notin> set (dead @ [pn])"
    then have "set (users g0 p) \<subseteq> set (users g p)" using k6 by simp
    moreover from p have "p \<noteq> pn" by simp
    then have "set (users g p) \<subseteq> set (users ?g' p)" by (rule rewritePHI_users_other)
    ultimately show "set (users g0 p) \<subseteq> set (users ?g' p)" by blast
  qed
  have c7: "inj_on ?repl (set (dead @ [pn]))"
  proof (cases "pn \<in> set dead")
    case True
    then have "set (dead @ [pn]) = set dead" by auto
    with True k7 show ?thesis by simp
  next
    case False
    have "\<forall>p\<in>set dead. repl p \<noteq> ?new" using rb by fastforce
    with False k7 show ?thesis by (auto simp: inj_on_def)
  qed
  show ?thesis
    unfolding redirected_def using c0 c3 c1 c2 c6 c7 by simp
qed

lemma materialize_redirected:
  assumes ea: "expanderAvoids A ps" and fr: "\<forall>p\<in>set ps. p < fresh g"
    and inv: "redirected h hi ps g0 repl (g, dead, flag)"
    and m: "materialize A g s t ip (constantValue s) = (g1, r)"
  shows "redirected h hi ps g0 repl (g1, dead, flag')"
proof -
  from materialize_props [OF ea fr _ m] constantValue_const
  have a: "fresh g \<le> fresh g1" "\<forall>b. set (body g b) \<subseteq> set (body g1 b)" by blast+
  from inv a(1) materialize_keeps(1) [OF m] a(2) materialize_keeps(2) [OF m]
  show ?thesis by (rule redirected_mono)
qed

lemma processPHI_redirected:
  assumes ea: "expanderAvoids A ps" and pn: "pn \<in> set ps" and ps0: "\<forall>p\<in>set ps. p < fresh g0"
    and inv: "redirected h hi ps g0 repl (g, dead, flag)"
    and r: "processPHI A L hi pi (g, dead, flag) pn = (g', dead', flag')"
  shows "\<exists>repl'. redirected h hi ps g0 repl' (g', dead', flag')"
proof -
  from inv have k0: "fresh g0 \<le> fresh g" by (simp add: redirected_def)
  with ps0 have fr: "\<forall>p\<in>set ps. p < fresh g" by fastforce
  show ?thesis
    using r
  proof (cases rule: processPHI_cases)
    case skip
    with inv show ?thesis by blast
  next
    case (noStart ip start w)
    have "redirected h hi ps g0 repl (g', dead, flag')"
      using ea fr inv noStart(1) by (rule materialize_redirected)
    with noStart(2) show ?thesis by blast
  next
    case (noStep ip start step w g1 sv)
    from materialize_props [OF ea fr _ noStep(1)] constantValue_const
    have a: "fresh g \<le> fresh g1" by blast
    have i1: "redirected h hi ps g0 repl (g1, dead, flag)"
      using ea fr inv noStep(1) by (rule materialize_redirected)
    from a fr have fr1: "\<forall>p\<in>set ps. p < fresh g1" by fastforce
    have "redirected h hi ps g0 repl (g', dead, flag')"
      using ea fr1 i1 noStep(2) by (rule materialize_redirected)
    with noStep(3) show ?thesis by blast
  next
    case (rewritten ip basicIV start step w g1 g2 sv tv)
    from materialize_props [OF ea fr _ rewritten(6)] constantValue_const
    have a: "fresh g \<le> fresh g1"
      "\<forall>p\<in>set ps. sv \<noteq> Inst p" "\<forall>i. sv = Inst i \<longrightarrow> i < fresh g1" by blast+
    have i1: "redirected h hi ps g0 repl (g1, dead, flag)"
      using ea fr inv rewritten(6) by (rule materialize_redirected)
    from a fr have fr1: "\<forall>p\<in>set ps. p < fresh g1" by fastforce
    from materialize_props [OF ea fr1 _ rewritten(7)] constantValue_const
    have b: "fresh g1 \<le> fresh g2" "\<forall>p\<in>set ps. tv \<noteq> Inst p" by blast+
    have i2: "redirected h hi ps g0 repl (g2, dead, flag)"
      using ea fr1 i1 rewritten(7) by (rule materialize_redirected)
    have ne: "basicIV \<noteq> pn" using rewritten(4) by auto
    have svb: "\<forall>i. sv = Inst i \<longrightarrow> i < fresh g2" using a(3) b(1) by fastforce
    have s1: "sv \<noteq> Inst pn" using a(2) pn by blast
    have s2: "tv \<noteq> Inst pn" using b(2) pn by blast
    have "redirected h hi ps g0 (if pn \<in> set dead then repl else repl(pn := Suc (fresh g2)))
           (rewritePHI g2 hi basicIV sv tv pn, dead @ [pn], True)"
      using pn ps0 i2 ne s1 s2 svb by (rule rewritePHI_redirected)
    with rewritten(9,10,11) show ?thesis by blast
  qed
qed

lemma foldl_processPHI_redirected:
  assumes "expanderAvoids A ps" "\<forall>p\<in>set ps. p < fresh g0" "set xs \<subseteq> set ps"
    "\<exists>repl. redirected h hi ps g0 repl st"
  shows "\<exists>repl. redirected h hi ps g0 repl (foldl (processPHI A L hi pi) st xs)"
  using assms(3,4)
proof (induction xs arbitrary: st)
  case Nil
  then show ?case by simp
next
  case (Cons x xs)
  obtain g dead flag where st: "st = (g, dead, flag)" by (cases st)
  obtain g' dead' flag' where r: "processPHI A L hi pi (g, dead, flag) x = (g', dead', flag')"
    by (cases "processPHI A L hi pi (g, dead, flag) x")
  from Cons.prems(2) st obtain repl where "redirected h hi ps g0 repl (g, dead, flag)" by blast
  with assms(1,2) Cons.prems(1) r have "\<exists>repl'. redirected h hi ps g0 repl' (g', dead', flag')"
    by (intro processPHI_redirected [where pn = x]) auto
  with Cons.IH [of "(g', dead', flag')"] Cons.prems(1) st r show ?case by simp
qed

lemma foldl_erase_fresh: "fresh (foldl eraseFromParent g ds) = fresh g"
  by (induction ds arbitrary: g) (simp_all add: eraseFromParent_def)

lemma foldl_erase_users:
  "users (foldl eraseFromParent g ds) j = filter (\<lambda>x. x \<notin> set ds) (users g j)"
proof (induction ds arbitrary: g)
  case Nil
  show ?case by simp
next
  case (Cons d ds)
  have "users (eraseFromParent g d) j = filter (\<lambda>x. x \<noteq> d) (users g j)"
    by (simp add: eraseFromParent_def)
  with Cons [of "eraseFromParent g d"] show ?case
    by (simp add: conj_commute)
qed

lemma foldl_erase_inst:
  "u \<notin> set ds \<Longrightarrow> inst (foldl eraseFromParent g ds) u = inst g u"
  by (induction ds arbitrary: g) (simp_all add: eraseFromParent_def)

lemma foldl_erase_dropped:
  "operands (inst g u) = [] \<Longrightarrow> operands (inst (foldl eraseFromParent g ds) u) = []"
  by (induction ds arbitrary: g) (simp_all add: eraseFromParent_def)

lemma foldl_erase_operands:
  "u \<in> set ds \<Longrightarrow> operands (inst (foldl eraseFromParent g ds) u) = []"
proof (induction ds arbitrary: g)
  case Nil
  then show ?case by simp
next
  case (Cons d ds)
  show ?case
  proof (cases "u = d")
    case True
    have "operands (inst (eraseFromParent g d) u) = []"
      using True by (simp add: eraseFromParent_def)
    then show ?thesis by (simp add: foldl_erase_dropped)
  next
    case False
    with Cons.prems have "u \<in> set ds" by simp
    then show ?thesis by (simp add: Cons.IH)
  qed
qed

lemma getFirstNonPHI_mem: "getFirstNonPHI g h = Some hi \<Longrightarrow> hi \<in> set (body g h)"
  by (auto simp: getFirstNonPHI_def find_Some_iff)

lemma redirect_nil: "redirect repl [] = (\<lambda>v. v)"
  by (rule ext) (simp add: redirect_def split: val.splits)

lemma symbolic_uses:
  "getFirstNonPHI ivG 3 = Some 12"
  "operands (inst ivG 12) = [OtherVal OtherTy 1, Inst 11]"
  "operands (inst ivG 20) = [Inst 11]"
  "operands (inst (fst (scanHeader symbolicA ivL 3 12 ivG)) 12) = [OtherVal OtherTy 1, Inst 43]"
  "operands (inst (fst (scanHeader symbolicA ivL 3 12 ivG)) 43) = [Inst 41, Inst 42]"
  "users ivG 11 = [20, 15, 12]"
  "users ivG 15 = [11]"
  "operands (inst ivG 11) = [ConstantInt 32 10, Inst 15]"
  by code_simp+

section \<open>The claims about DerivedInductionVars\<close>

text \<open>
  Claim C2 does not hold of the code. The enclosing loop \<open>nestL\<close> has no merge point
  of its own and one sub-loop, the example loop. The call on \<open>nestL\<close> rewrites the
  merge point \<open>11\<close> of the sub-loop (the call on the sub-loop alone returns true) and
  returns false, and the run over the function reports "all preserved" for a graph it
  has changed.
\<close>

theorem C2_sub_loop_change_not_reported:
  "fst (analyzeLoopRecursively ivA nestL ivG) = False \<and>
   body (snd (analyzeLoopRecursively ivA nestL ivG)) 3 = [10, 41, 42, 12, 14, 15, 16] \<and>
   body ivG 3 = [10, 11, 12, 14, 15, 16] \<and>
   snd (DerivedInductionVars_run ivA [nestL] ivG) = PreservedAll \<and>
   fst (analyzeLoopRecursively ivA ivL ivG) = True"
  by code_simp




text \<open>
  Claim C9. When each merge point left in the header of every loop of the function is
  the canonical counter, or not of integer type, or not an affine recurrence of its
  loop, a run of the rewriter returns the graph as it was and reports "all preserved",
  and every call on a top-level loop returns false.
\<close>

theorem C9_simplified_loop_second_run_no_change:
  assumes "\<forall>L\<in>set LI. \<forall>L'\<in>set (loopsOf L). simplifiedLoop A g L'"
  shows "DerivedInductionVars_run A LI g = (g, PreservedAll) \<and>
         (\<forall>L\<in>set LI. analyzeLoopRecursively A L g = (False, g))"
proof -
  from assms have q: "\<forall>L\<in>set LI. \<forall>L'\<in>set (loopsOf L). quiet A g L'"
    by (blast intro: simplified_quiet)
  then show ?thesis
    by (auto simp: run_quiet analyze_quiet(1))
qed

theorem C9_simplified_loop_second_run_no_change_witness:
  "snd (DerivedInductionVars_run ivA [ivL] ivG) = PreservedNone \<and>
   DerivedInductionVars_run ivA [ivL] (fst (DerivedInductionVars_run ivA [ivL] ivG)) =
     (fst (DerivedInductionVars_run ivA [ivL] ivG), PreservedAll)"
proof -
  have "\<forall>L\<in>set [ivL]. \<forall>L'\<in>set (loopsOf L).
          simplifiedLoop ivA (fst (DerivedInductionVars_run ivA [ivL] ivG)) L'"
    using iv_first_run(2) by (simp add: ivL_def)
  from C9_simplified_loop_second_run_no_change [OF this] iv_first_run(1) show ?thesis by simp
qed

text \<open>
  The rewrite of one merge point. When the body of the scan records the merge point
  \<open>pn\<close>, it is an affine recurrence \<open>{start,+,step}\<close> of the loop, of integer type
  of some width \<open>w\<close>, and the loop has a canonical counter other than \<open>pn\<close>; a
  constant start or step is used as it is. The new graph has, immediately in front of
  the header's first instruction that is not a merge point, the multiplication of the
  counter by the step and then the addition of the start and the product; every
  operand that was \<open>pn\<close> is the addition now, and nothing refers to \<open>pn\<close>. When the
  counter and the start have the type of the merge point and the counter holds \<open>n\<close>,
  executing the two new instructions gives the addition the value the merge point had
  in iteration \<open>n\<close>.
\<close>

theorem rewritten_merge_point_matches_recurrence:
  assumes step: "processPHI A L hi pi (g, dead, flag) pn = (g', dead', flag')"
    and rewritten: "dead' \<noteq> dead"
    and fresh: "pn < fresh g"
    and avoid: "expanderAvoids A [pn]"
  shows "\<exists>basicIV start step w g2 startVal stepVal.
      getType (inst g pn) = IntegerTy w \<and>
      getSCEV A g pn = SCEVAddRecExpr (loopId L) start step [] \<and>
      getCanonicalInductionVariable A g L = Some basicIV \<and> basicIV \<noteq> pn \<and>
      (\<forall>c. constantValue start = Some c \<longrightarrow> startVal = c) \<and>
      (\<forall>c. constantValue step = Some c \<longrightarrow> stepVal = c) \<and>
      (constantValue start \<noteq> None \<and> constantValue step \<noteq> None \<longrightarrow> g2 = g) \<and>
      g' = rewritePHI g2 hi basicIV startVal stepVal pn \<and> dead' = dead @ [pn] \<and> flag' \<and>
      opcode (inst g' (fresh g2)) = Mul \<and>
      operands (inst g' (fresh g2)) = [Inst basicIV, stepVal] \<and>
      opcode (inst g' (Suc (fresh g2))) = Add \<and>
      operands (inst g' (Suc (fresh g2))) = [startVal, Inst (fresh g2)] \<and>
      (\<forall>b. body g' b = insertBefore hi (Suc (fresh g2)) (insertBefore hi (fresh g2) (body g2 b))) \<and>
      (\<forall>u. u \<noteq> fresh g2 \<and> u \<noteq> Suc (fresh g2) \<longrightarrow>
         operands (inst g' u) =
           map (\<lambda>v. if v = Inst pn then Inst (Suc (fresh g2)) else v) (operands (inst g2 u))) \<and>
      noRef g' pn \<and>
      (\<forall>env st n.
         getType (inst g2 basicIV) = IntegerTy w \<and> typeOf g2 startVal = IntegerTy w \<and>
         st basicIV = int n mod 2 ^ w \<longrightarrow>
         execInstr g' env (execInstr g' env st (fresh g2)) (Suc (fresh g2)) (Suc (fresh g2)) =
           affineValue w (valOf env st startVal) (valOf env st stepVal) n)"
  using step
proof (cases rule: processPHI_cases)
  case skip
  with rewritten show ?thesis by simp
next
  case (noStart ip start w)
  with rewritten show ?thesis by simp
next
  case (noStep ip start step w g1 sv)
  with rewritten show ?thesis by simp
next
  case (rewritten ip basicIV start step w g1 g2 sv tv)
  have fr: "\<forall>p\<in>set [pn]. p < fresh g" using fresh by simp
  from materialize_props [OF avoid fr _ rewritten(6)] constantValue_const
  have a: "fresh g \<le> fresh g1" "sv \<noteq> Inst pn" "\<forall>i. sv = Inst i \<longrightarrow> i < fresh g1"
    by (simp, fastforce, blast)
  then have fr1: "\<forall>p\<in>set [pn]. p < fresh g1" using fresh by simp
  from materialize_props [OF avoid fr1 _ rewritten(7)] constantValue_const
  have b: "fresh g1 \<le> fresh g2" "tv \<noteq> Inst pn"
    by (simp, fastforce)
  have fr2: "pn < fresh g2" using fresh a(1) b(1) by simp
  have svf: "\<forall>i. sv = Inst i \<longrightarrow> i < fresh g2" using a(3) b(1) by fastforce
  have ne: "basicIV \<noteq> pn" using rewritten(4) by auto
  have c1: "\<forall>c. constantValue start = Some c \<longrightarrow> sv = c"
    using materialize_known [OF _ rewritten(6)] by auto
  have c2: "\<forall>c. constantValue step = Some c \<longrightarrow> tv = c"
    using materialize_known [OF _ rewritten(7)] by auto
  have c3: "constantValue start \<noteq> None \<and> constantValue step \<noteq> None \<longrightarrow> g2 = g"
    using materialize_known [OF _ rewritten(6)] materialize_known [OF _ rewritten(7)] by auto
  have mul: "opcode (inst g' (fresh g2)) = Mul" "operands (inst g' (fresh g2)) = [Inst basicIV, tv]"
    unfolding rewritten(9) using rewritePHI_mul [OF ne b(2), of g2 hi sv] by simp_all
  have add: "opcode (inst g' (Suc (fresh g2))) = Add"
    "operands (inst g' (Suc (fresh g2))) = [sv, Inst (fresh g2)]"
    unfolding rewritten(9) using rewritePHI_add [OF a(2) fr2 svf, of hi basicIV tv] by simp_all
  have lay: "\<forall>b. body g' b = insertBefore hi (Suc (fresh g2)) (insertBefore hi (fresh g2) (body g2 b))"
    unfolding rewritten(9) by (simp add: rewritePHI_layout)
  have red: "\<forall>u. u \<noteq> fresh g2 \<and> u \<noteq> Suc (fresh g2) \<longrightarrow>
         operands (inst g' u) =
           map (\<lambda>v. if v = Inst pn then Inst (Suc (fresh g2)) else v) (operands (inst g2 u))"
    unfolding rewritten(9) by (simp add: rewritePHI_redirects)
  have nr: "noRef g' pn"
    unfolding rewritten(9) using fr2 a(2) b(2) ne by (rule rewritePHI_noRef)
  have sem: "\<forall>env st n.
         getType (inst g2 basicIV) = IntegerTy w \<and> typeOf g2 sv = IntegerTy w \<and>
         st basicIV = int n mod 2 ^ w \<longrightarrow>
         execInstr g' env (execInstr g' env st (fresh g2)) (Suc (fresh g2)) (Suc (fresh g2)) =
           affineValue w (valOf env st sv) (valOf env st tv) n"
    unfolding rewritten(9) using rewritePHI_value [OF ne a(2) b(2) fr2 svf] by blast
  show ?thesis
    apply (rule exI [of _ basicIV], rule exI [of _ start], rule exI [of _ step], rule exI [of _ w])
    apply (rule exI [of _ g2], rule exI [of _ sv], rule exI [of _ tv])
    using rewritten(1,2,3,9,10,11) ne c1 c2 c3 mul add lay red nr sem
    apply (intro conjI)
    apply assumption+
    apply simp_all
    done
qed

text \<open>
  On the example of the specification, \<open>j\<close> with \<open>j_0 = 10\<close> and
  \<open>j_next = j + 5\<close>: the merge point \<open>11\<close> becomes \<open>10 + 5 * i\<close>, which is 25 in
  iteration 3.
\<close>

theorem rewritten_merge_point_matches_recurrence_example:
  "\<exists>g'. processPHI ivA ivL 12 (Some 9) (ivG, [], False) 11 = (g', [11], True) \<and>
         body g' 3 = [10, 11, 41, 42, 12, 14, 15, 16] \<and>
         operands (inst g' 41) = [Inst 10, ConstantInt 32 5] \<and>
         operands (inst g' 42) = [ConstantInt 32 10, Inst 41] \<and>
         execInstr g' (\<lambda>n. 0) (execInstr g' (\<lambda>n. 0) ((\<lambda>i. 0)(10 := 3)) 41) 42 42 = 25 \<and>
         affineValue 32 10 5 3 = 25"
proof -
  obtain g' dead' flag' where st: "processPHI ivA ivL 12 (Some 9) (ivG, [], False) 11 = (g', dead', flag')"
    by (cases "processPHI ivA ivL 12 (Some 9) (ivG, [], False) 11")
  have "fst (snd (processPHI ivA ivL 12 (Some 9) (ivG, [], False) 11)) = [11]" by code_simp
  with st have d: "dead' = [11]" by simp
  then have rw: "dead' \<noteq> []" by simp
  have fr: "11 < fresh ivG" by (simp add: ivG_def)
  have av: "expanderAvoids ivA [11]" by (simp add: expanderAvoids_def ivA_def)
  have facts: "getType (inst ivG 11) = IntegerTy 32"
    "getSCEV ivA ivG 11 = SCEVAddRecExpr 1 (SCEVConstant 32 10) (SCEVConstant 32 5) []"
    "getCanonicalInductionVariable ivA ivG ivL = Some 10"
    "getType (inst ivG 10) = IntegerTy 32" "fresh ivG = 41" "loopId ivL = 1"
    "body ivG 3 = [10, 11, 12, 14, 15, 16]"
    by code_simp+
  from rewritten_merge_point_matches_recurrence [OF st rw fr av]
  obtain basicIV start step w g2 startVal stepVal where
    ty: "getType (inst ivG 11) = IntegerTy w"
    and sc: "getSCEV ivA ivG 11 = SCEVAddRecExpr (loopId ivL) start step []"
    and cn: "getCanonicalInductionVariable ivA ivG ivL = Some basicIV"
    and c1: "\<forall>c. constantValue start = Some c \<longrightarrow> startVal = c"
    and c2: "\<forall>c. constantValue step = Some c \<longrightarrow> stepVal = c"
    and c3: "constantValue start \<noteq> None \<and> constantValue step \<noteq> None \<longrightarrow> g2 = ivG"
    and fl: "flag'"
    and mul: "operands (inst g' (fresh g2)) = [Inst basicIV, stepVal]"
    and add: "operands (inst g' (Suc (fresh g2))) = [startVal, Inst (fresh g2)]"
    and lay: "\<forall>b. body g' b = insertBefore 12 (Suc (fresh g2)) (insertBefore 12 (fresh g2) (body g2 b))"
    and sem: "\<forall>env st n.
         getType (inst g2 basicIV) = IntegerTy w \<and> typeOf g2 startVal = IntegerTy w \<and>
         st basicIV = int n mod 2 ^ w \<longrightarrow>
         execInstr g' env (execInstr g' env st (fresh g2)) (Suc (fresh g2)) (Suc (fresh g2)) =
           affineValue w (valOf env st startVal) (valOf env st stepVal) n"
    by blast
  from ty facts(1) have w: "w = 32" by simp
  from sc facts(2,6) have s: "start = SCEVConstant 32 10" "step = SCEVConstant 32 5" by simp_all
  from cn facts(3) have b: "basicIV = 10" by simp
  from c1 c2 c3 s have v: "startVal = ConstantInt 32 10" "stepVal = ConstantInt 32 5" "g2 = ivG"
    by (simp_all add: constantValue_def)
  from sem [rule_format, of "(\<lambda>i. 0)(10 := 3)" 3 "\<lambda>n. 0"] facts(4)
  have "execInstr g' (\<lambda>n. 0) (execInstr g' (\<lambda>n. 0) ((\<lambda>i. 0)(10 := 3)) 41) 42 42 =
      affineValue 32 10 5 3"
    by (simp add: w b v facts(5) typeOf_def valOf_def)
  moreover have "affineValue 32 10 5 3 = 25" by code_simp
  moreover from lay have "body g' 3 = [10, 11, 41, 42, 12, 14, 15, 16]"
    by (simp add: v facts(5,7))
  ultimately show ?thesis
    using st d fl mul add by (simp add: v b facts(5))
qed

text \<open>
  Claim C7 does not hold of the code when the canonical counter has another width than
  the merge point. In \<open>narrowG\<close> the counter \<open>10\<close> has eight bits and the merge point
  \<open>11 = {10,+,5}\<close> has thirty-two. The run rewrites \<open>11\<close>: the multiplication
  \<open>41\<close> takes the type of its left operand, the counter, while its right operand is
  the thirty-two bit constant 5, and the addition \<open>42\<close> of thirty-two bits has the
  eight bit product as an operand. In iteration 52, where the merge point held 270, the
  addition that replaced it gives 14. With a counter of sixty-four bits (\<open>wideG\<close>) the
  operands of the multiplication differ in type in the same way.
\<close>

theorem C7_counter_of_other_width:
  "getCanonicalInductionVariable narrowA narrowG ivL = Some 10 \<and>
   getType (inst narrowG 10) = IntegerTy 8 \<and> getType (inst narrowG 11) = IntegerTy 32 \<and>
   snd (DerivedInductionVars_run narrowA [ivL] narrowG) = PreservedNone \<and>
   body (fst (DerivedInductionVars_run narrowA [ivL] narrowG)) 3 = [10, 41, 42, 12, 14, 15, 16] \<and>
   opcode (inst (fst (DerivedInductionVars_run narrowA [ivL] narrowG)) 41) = Mul \<and>
   getType (inst (fst (DerivedInductionVars_run narrowA [ivL] narrowG)) 41) = IntegerTy 8 \<and>
   operands (inst (fst (DerivedInductionVars_run narrowA [ivL] narrowG)) 41) = [Inst 10, ConstantInt 32 5] \<and>
   opcode (inst (fst (DerivedInductionVars_run narrowA [ivL] narrowG)) 42) = Add \<and>
   getType (inst (fst (DerivedInductionVars_run narrowA [ivL] narrowG)) 42) = IntegerTy 32 \<and>
   operands (inst (fst (DerivedInductionVars_run narrowA [ivL] narrowG)) 42) = [ConstantInt 32 10, Inst 41] \<and>
   operands (inst (fst (DerivedInductionVars_run narrowA [ivL] narrowG)) 12) = [OtherVal OtherTy 1, Inst 42] \<and>
   execInstr (fst (DerivedInductionVars_run narrowA [ivL] narrowG)) (\<lambda>n. 0)
     (execInstr (fst (DerivedInductionVars_run narrowA [ivL] narrowG)) (\<lambda>n. 0) ((\<lambda>i. 0)(10 := 52)) 41)
     42 42 = 14 \<and>
   affineValue 32 10 5 52 = 270 \<and>
   getType (inst (fst (DerivedInductionVars_run wideA [ivL] wideG)) 41) = IntegerTy 64 \<and>
   operands (inst (fst (DerivedInductionVars_run wideA [ivL] wideG)) 41) = [Inst 10, ConstantInt 32 5]"
  by code_simp

text \<open>
  Claim C8. The canonical counter the loop analysis reports is an operand of some
  instruction, the expander never refers to a merge point of the header, the free
  identities lie above the merge points, and the insertion point is the first
  instruction of the header that is not a merge point. Then each recorded merge point
  has a replacement of its own, an addition that the pass created in the header and
  whose second operand is a multiplication that the pass created in the header. When
  the scan of the header ends and before anything is deleted, every merge point of the
  header is still linked in it; every instruction that existed before the scan has the
  operands it had, with each recorded merge point replaced by its addition; the use
  list of the addition holds the users the merge point had; the recorded merge point
  has an empty use list and is an operand of no instruction. The recorded merge points
  are deleted together after the scan. After that the surviving instructions still have
  the redirected operands, the additions are still linked and still hold the surviving
  users, and each deleted merge point is in no block, has dropped its operands, is in
  no use list, has an empty use list and is an operand of no instruction.
\<close>

theorem C8_uses_redirected_then_batched_deletion:
  assumes "canonicalIsUsed A L" "expanderAvoids A (phis g h)" "\<forall>p\<in>set (phis g h). p < fresh g"
    "getFirstNonPHI g h = Some hi"
  shows "\<exists>g1 dead flag repl.
           scanHeader A L h hi g = (g1, dead, flag) \<and>
           rewriteLoop A L h hi g = (foldl eraseFromParent g1 dead, flag) \<and>
           set dead \<subseteq> set (phis g h) \<and> flag = (dead \<noteq> []) \<and> inj_on repl (set dead) \<and>
           (\<forall>p\<in>set (phis g h). p \<in> set (body g1 h)) \<and>
           (\<forall>u<fresh g. operands (inst g1 u) = map (redirect repl dead) (operands (inst g u))) \<and>
           (\<forall>p\<in>set dead.
              synthesizedAdd g g1 h (repl p) \<and> set (users g p) \<subseteq> set (users g1 (repl p)) \<and>
              users g1 p = [] \<and> (\<forall>u. Inst p \<notin> set (operands (inst g1 u)))) \<and>
           (\<forall>u<fresh g. u \<notin> set dead \<longrightarrow>
              operands (inst (fst (rewriteLoop A L h hi g)) u) =
                map (redirect repl dead) (operands (inst g u))) \<and>
           (\<forall>p\<in>set dead.
              synthesizedAdd g (fst (rewriteLoop A L h hi g)) h (repl p) \<and>
              set (users g p) - set dead \<subseteq> set (users (fst (rewriteLoop A L h hi g)) (repl p)) \<and>
              (\<forall>b. p \<notin> set (body (fst (rewriteLoop A L h hi g)) b)) \<and>
              operands (inst (fst (rewriteLoop A L h hi g)) p) = [] \<and>
              (\<forall>j. p \<notin> set (users (fst (rewriteLoop A L h hi g)) j)) \<and>
              users (fst (rewriteLoop A L h hi g)) p = [] \<and>
              (\<forall>u. Inst p \<notin> set (operands (inst (fst (rewriteLoop A L h hi g)) u))))"
proof -
  let ?ps = "phis g h"
  obtain g1 dead flag where sc: "scanHeader A L h hi g = (g1, dead, flag)"
    by (cases "scanHeader A L h hi g")
  let ?gF = "foldl eraseFromParent g1 dead"
  have "scanInv ?ps g (g, [], False)"
    using assms(3) by (simp add: scanInv_def)
  then have "scanInv ?ps g (scanHeader A L h hi g)"
    unfolding scanHeader_def using assms(1,2) by (intro foldl_processPHI_inv) simp_all
  with sc have sub: "set dead \<subseteq> set ?ps" and nr: "\<forall>p\<in>set dead. noRef g1 p"
    and bd: "\<forall>b. set (body g b) \<subseteq> set (body g1 b)" and fl: "flag = (dead \<noteq> [])"
    by (simp_all add: scanInv_def)
  have hi: "hi \<in> set (body g h)" using assms(4) by (rule getFirstNonPHI_mem)
  have "\<exists>repl. redirected h hi ?ps g repl (g, [], False)"
    using hi by (simp add: redirected_def redirect_nil)
  with assms(2,3) have "\<exists>repl. redirected h hi ?ps g repl (scanHeader A L h hi g)"
    unfolding scanHeader_def by (intro foldl_processPHI_redirected) simp_all
  with sc obtain repl where k0: "fresh g \<le> fresh g1"
    and k1: "\<forall>u<fresh g. operands (inst g1 u) = map (redirect repl dead) (operands (inst g u))"
    and k2: "\<forall>p\<in>set dead. synthesizedAdd g g1 h (repl p) \<and> set (users g p) \<subseteq> set (users g1 (repl p))"
    and k7: "inj_on repl (set dead)"
    by (auto simp: redirected_def)
  have rl: "rewriteLoop A L h hi g = (?gF, flag)"
    by (simp add: rewriteLoop_def sc)
  have linked: "\<forall>p\<in>set ?ps. p \<in> set (body g1 h)"
    using bd phis_subset [of g h] by blast
  have low: "\<forall>p\<in>set dead. p < fresh g" using sub assms(3) by blast
  have before: "\<forall>p\<in>set dead.
      synthesizedAdd g g1 h (repl p) \<and> set (users g p) \<subseteq> set (users g1 (repl p)) \<and>
      users g1 p = [] \<and> (\<forall>u. Inst p \<notin> set (operands (inst g1 u)))"
    using k2 nr by (simp add: noRef_def)
  have a1: "\<forall>u<fresh g. u \<notin> set dead \<longrightarrow>
      operands (inst ?gF u) = map (redirect repl dead) (operands (inst g u))"
    using k1 by (simp add: foldl_erase_inst)
  have a2: "\<forall>p\<in>set dead. synthesizedAdd g ?gF h (repl p)"
  proof
    fix p assume "p \<in> set dead"
    with k2 have "synthesizedAdd g g1 h (repl p)" by blast
    then show "synthesizedAdd g ?gF h (repl p)"
    proof (rule synthesizedAdd_map [where f = "\<lambda>v. v"])
      show "fresh g1 \<le> fresh ?gF" by (simp add: foldl_erase_fresh)
      show "\<forall>u. fresh g \<le> u \<and> u < fresh g1 \<longrightarrow>
        opcode (inst ?gF u) = opcode (inst g1 u) \<and>
        operands (inst ?gF u) = map (\<lambda>v. v) (operands (inst g1 u)) \<and>
        (u \<in> set (body g1 h) \<longrightarrow> u \<in> set (body ?gF h))"
      proof (intro allI impI)
        fix u assume "fresh g \<le> u \<and> u < fresh g1"
        with low have "u \<notin> set dead" by fastforce
        then show "opcode (inst ?gF u) = opcode (inst g1 u) \<and>
          operands (inst ?gF u) = map (\<lambda>v. v) (operands (inst g1 u)) \<and>
          (u \<in> set (body g1 h) \<longrightarrow> u \<in> set (body ?gF h))"
          by (simp add: foldl_erase_inst foldl_erase_body)
      qed
    qed simp
  qed
  have a3: "\<forall>p\<in>set dead. set (users g p) - set dead \<subseteq> set (users ?gF (repl p))"
    using k2 by (auto simp: foldl_erase_users)
  have a4: "\<forall>p\<in>set dead. noRef ?gF p"
    using nr by (auto intro: foldl_erase_noRef)
  have after: "\<forall>p\<in>set dead.
      synthesizedAdd g ?gF h (repl p) \<and>
      set (users g p) - set dead \<subseteq> set (users ?gF (repl p)) \<and>
      (\<forall>b. p \<notin> set (body ?gF b)) \<and> operands (inst ?gF p) = [] \<and>
      (\<forall>j. p \<notin> set (users ?gF j)) \<and> users ?gF p = [] \<and>
      (\<forall>u. Inst p \<notin> set (operands (inst ?gF u)))"
    using a2 a3 a4
    by (simp add: noRef_def foldl_erase_body foldl_erase_users foldl_erase_operands)
  have "scanHeader A L h hi g = (g1, dead, flag) \<and>
        rewriteLoop A L h hi g = (?gF, flag) \<and>
        set dead \<subseteq> set ?ps \<and> flag = (dead \<noteq> []) \<and> inj_on repl (set dead) \<and>
        (\<forall>p\<in>set ?ps. p \<in> set (body g1 h)) \<and>
        (\<forall>u<fresh g. operands (inst g1 u) = map (redirect repl dead) (operands (inst g u))) \<and>
        (\<forall>p\<in>set dead.
           synthesizedAdd g g1 h (repl p) \<and> set (users g p) \<subseteq> set (users g1 (repl p)) \<and>
           users g1 p = [] \<and> (\<forall>u. Inst p \<notin> set (operands (inst g1 u)))) \<and>
        (\<forall>u<fresh g. u \<notin> set dead \<longrightarrow>
           operands (inst ?gF u) = map (redirect repl dead) (operands (inst g u))) \<and>
        (\<forall>p\<in>set dead.
           synthesizedAdd g ?gF h (repl p) \<and>
           set (users g p) - set dead \<subseteq> set (users ?gF (repl p)) \<and>
           (\<forall>b. p \<notin> set (body ?gF b)) \<and> operands (inst ?gF p) = [] \<and>
           (\<forall>j. p \<notin> set (users ?gF j)) \<and> users ?gF p = [] \<and>
           (\<forall>u. Inst p \<notin> set (operands (inst ?gF u))))"
    using sc rl sub fl k7 linked k1 before a1 after by blast
  then show ?thesis
    unfolding rl fst_conv by blast
qed

theorem C8_uses_redirected_then_batched_deletion_witness:
  "\<exists>g1. scanHeader symbolicA ivL 3 12 ivG = (g1, [11], True) \<and>
        body g1 3 = [10, 11, 42, 43, 12, 14, 15, 16] \<and>
        operands (inst ivG 12) = [OtherVal OtherTy 1, Inst 11] \<and>
        operands (inst g1 12) = [OtherVal OtherTy 1, Inst 43] \<and>
        operands (inst g1 20) = [Inst 43] \<and>
        synthesizedAdd ivG g1 3 43 \<and> operands (inst g1 43) = [Inst 41, Inst 42] \<and>
        {20, 15, 12} \<subseteq> set (users g1 43) \<and>
        users g1 11 = [] \<and> (\<forall>u. Inst 11 \<notin> set (operands (inst g1 u))) \<and>
        body (fst (rewriteLoop symbolicA ivL 3 12 ivG)) 3 = [10, 42, 43, 12, 14, 15, 16] \<and>
        operands (inst (fst (rewriteLoop symbolicA ivL 3 12 ivG)) 12) = [OtherVal OtherTy 1, Inst 43] \<and>
        operands (inst ivG 11) = [ConstantInt 32 10, Inst 15] \<and>
        operands (inst (fst (rewriteLoop symbolicA ivL 3 12 ivG)) 11) = [] \<and>
        users ivG 15 = [11] \<and>
        (\<forall>j. 11 \<notin> set (users (fst (rewriteLoop symbolicA ivL 3 12 ivG)) j)) \<and>
        users (fst (rewriteLoop symbolicA ivL 3 12 ivG)) 11 = []"
proof -
  let ?gF = "fst (rewriteLoop symbolicA ivL 3 12 ivG)"
  have h: "canonicalIsUsed symbolicA ivL" "expanderAvoids symbolicA (phis ivG 3)"
    "\<forall>p\<in>set (phis ivG 3). p < fresh ivG" "getFirstNonPHI ivG 3 = Some 12"
    using symbolic_contracts symbolic_uses(1) by (simp_all add: symbolic_scan)
  from C8_uses_redirected_then_batched_deletion [OF h]
  obtain g1 dead flag repl where sc: "scanHeader symbolicA ivL 3 12 ivG = (g1, dead, flag)"
    and fl: "flag = (dead \<noteq> [])"
    and red: "\<forall>u<fresh ivG. operands (inst g1 u) = map (redirect repl dead) (operands (inst ivG u))"
    and before: "\<forall>p\<in>set dead.
        synthesizedAdd ivG g1 3 (repl p) \<and> set (users ivG p) \<subseteq> set (users g1 (repl p)) \<and>
        users g1 p = [] \<and> (\<forall>u. Inst p \<notin> set (operands (inst g1 u)))"
    and after: "\<forall>p\<in>set dead.
        operands (inst ?gF p) = [] \<and> (\<forall>j. p \<notin> set (users ?gF j)) \<and> users ?gF p = []"
    by blast
  from sc symbolic_scan(2) have dead: "dead = [11]" by simp
  from sc symbolic_scan(3) have b: "body g1 3 = [10, 11, 42, 43, 12, 14, 15, 16]" by simp
  have "(12::nat) < fresh ivG" "(20::nat) < fresh ivG" by (simp_all add: symbolic_scan(7))
  with red have o12: "operands (inst g1 12) = map (redirect repl dead) (operands (inst ivG 12))"
    and o20: "operands (inst g1 20) = map (redirect repl dead) (operands (inst ivG 20))"
    by blast+
  from sc symbolic_uses(4) have "operands (inst g1 12) = [OtherVal OtherTy 1, Inst 43]" by simp
  with o12 have r: "repl 11 = 43"
    by (simp add: symbolic_uses(2) dead redirect_def)
  from o20 have c20: "operands (inst g1 20) = [Inst 43]"
    by (simp add: symbolic_uses(3) dead redirect_def r)
  from o12 have c12: "operands (inst g1 12) = [OtherVal OtherTy 1, Inst 43]"
    by (simp add: symbolic_uses(2) dead redirect_def r)
  from sc symbolic_uses(5) have c43: "operands (inst g1 43) = [Inst 41, Inst 42]" by simp
  from before dead r have bf: "synthesizedAdd ivG g1 3 43" "set (users ivG 11) \<subseteq> set (users g1 43)"
    "users g1 11 = []" "\<forall>u. Inst 11 \<notin> set (operands (inst g1 u))"
    by simp_all
  from bf(2) have us: "{20, 15, 12} \<subseteq> set (users g1 43)" by (simp add: symbolic_uses(6))
  from after dead have af: "operands (inst ?gF 11) = []" "\<forall>j. 11 \<notin> set (users ?gF j)"
    "users ?gF 11 = []"
    by simp_all
  show ?thesis
    using sc fl dead b c12 c20 c43 bf(1,3,4) us af symbolic_scan(5,6) symbolic_uses(2,7,8)
    by simp
qed

end
